theory Spec2Isabelle
  imports Main "HOL-Library.Sublist"
begin

section \<open>The live tree and the index registry\<close>

text \<open>
  A live DOM node, as the engine reads it: its identity (\<open>lid\<close>, the object itself) and
  its children at the time the batch is delivered (\<open>lastChild\<close>, \<open>previousSibling\<close>,
  \<open>nextSibling\<close> walk this list). The global \<open>document\<close> is the node with identity
  \<open>document_id\<close>.
\<close>

datatype lnode = LNode (lid: nat) (lkids: "lnode list")

definition document_id :: nat where
  "document_id = 0"

text \<open>The five classification classes of \<open>clarity.ts\<close> (lines 19--23).\<close>

datatype className =
    FinalClassName
  | NewNodeClassName
  | TopNewNodeClassName
  | MovedNodeClassName
  | UpdatedNodeClassName

text \<open>
  \<open>ILayoutState\<close> and \<open>IgnoreTag\<close> are declared in \<open>stateprovider\<close>, which is not among
  the sources; the engine reads the \<open>tag\<close> of a layout only.
\<close>

datatype ILayoutState = ILayoutState (tag: string)

definition IgnoreTag :: string where
  "IgnoreTag = ''*IGNORE*''"

section \<open>The shadow document\<close>

text \<open>
  An element of the shadow document \<open>doc\<close>: \<open>uid\<close> is the identity of the object (the
  serial number of its \<open>createElement\<close>), \<open>ident\<close> its \<open>id\<close> attribute (the index; the
  two container divs have none), \<open>node\<close> the identity of the live node it mirrors,
  \<open>classList\<close> its classes in the order they were added.
\<close>

record shadowProps =
  uid :: nat
  ident :: "nat option"
  node :: "nat option"
  layout :: "ILayoutState option"
  ignore :: bool
  classList :: "className list"

datatype snode = SNode (props: shadowProps) (childNodes: "snode list")

text \<open>
  A reference to an element is its path from \<open>doc.documentElement\<close>: child positions,
  outermost first. \<open>[0]\<close> is \<open>shadowDomRoot\<close>, \<open>[1]\<close> is the \<open>removedNodes\<close> holder.
  The \<open>head\<close> and \<open>body\<close> that \<open>createHTMLDocument\<close> makes carry no id and no
  class and are never touched, so they are left out.
\<close>

type_synonym path = "nat list"

definition nth_opt :: "'a list \<Rightarrow> nat \<Rightarrow> 'a option" where
  "nth_opt xs k = (if k < length xs then Some (xs ! k) else None)"

fun get_at :: "snode list \<Rightarrow> path \<Rightarrow> snode option" where
  "get_at f [] = None"
| "get_at f (k # p) =
     (case nth_opt f k of
        None \<Rightarrow> None
      | Some n \<Rightarrow> if p = [] then Some n else get_at (childNodes n) p)"

definition props_at :: "snode list \<Rightarrow> path \<Rightarrow> shadowProps option" where
  "props_at f p = map_option props (get_at f p)"

text \<open>The child list of the element at a path; the empty path is the document element.\<close>

definition kids_at :: "snode list \<Rightarrow> path \<Rightarrow> snode list option" where
  "kids_at f p = (if p = [] then Some f else map_option childNodes (get_at f p))"

fun set_kids :: "snode \<Rightarrow> snode list \<Rightarrow> snode" where
  "set_kids (SNode a ks) ks' = SNode a ks'"

fun map_props :: "(shadowProps \<Rightarrow> shadowProps) \<Rightarrow> snode \<Rightarrow> snode" where
  "map_props g (SNode a ks) = SNode (g a) ks"

text \<open>Change the attributes of the element at a path (no structural change).\<close>

fun upd_at :: "(shadowProps \<Rightarrow> shadowProps) \<Rightarrow> path \<Rightarrow> snode list \<Rightarrow> snode list" where
  "upd_at g [] f = f"
| "upd_at g (k # p) f =
     (if k < length f
      then f[k := (if p = [] then map_props g (f ! k)
                   else set_kids (f ! k) (upd_at g p (childNodes (f ! k))))]
      else f)"

text \<open>Take the element at a path out of its parent's child list.\<close>

fun remove_at :: "path \<Rightarrow> snode list \<Rightarrow> snode list" where
  "remove_at [] f = f"
| "remove_at (k # p) f =
     (if p = [] then take k f @ drop (Suc k) f
      else if k < length f
      then f[k := set_kids (f ! k) (remove_at p (childNodes (f ! k)))]
      else f)"

text \<open>Make \<open>n\<close> child number \<open>k\<close> of the element at path \<open>b\<close>.\<close>

fun insert_at :: "path \<Rightarrow> nat \<Rightarrow> snode \<Rightarrow> snode list \<Rightarrow> snode list" where
  "insert_at [] k n f = take k f @ n # drop k f"
| "insert_at (j # b) k n f =
     (if j < length f
      then f[j := set_kids (f ! j) (insert_at b k n (childNodes (f ! j)))]
      else f)"

text \<open>All element paths of a forest in tree order (document order).\<close>

fun paths_from :: "nat \<Rightarrow> snode list \<Rightarrow> path list" where
  "paths_from n [] = []"
| "paths_from n (SNode a ks # f) =
     [n] # map ((#) n) (paths_from 0 ks) @ paths_from (Suc n) f"

definition paths :: "snode list \<Rightarrow> path list" where
  "paths f = paths_from 0 f"

text \<open>
  The paths of the elements that are in the document: \<open>removedNodes\<close> (position 1)
  belongs to it only while it is attached to the document element.
\<close>

definition docPaths :: "bool \<Rightarrow> snode list \<Rightarrow> path list" where
  "docPaths att f = (if att then paths f else paths (take 1 f))"

definition ident_at :: "snode list \<Rightarrow> path \<Rightarrow> nat option" where
  "ident_at f p = (case props_at f p of None \<Rightarrow> None | Some a \<Rightarrow> ident a)"

text \<open>\<open>doc.getElementById("" + i)\<close>: the first element in tree order with that id.\<close>

definition getElementById :: "bool \<Rightarrow> snode list \<Rightarrow> nat \<Rightarrow> path option" where
  "getElementById att f i = find (\<lambda>p. ident_at f p = Some i) (docPaths att f)"

section \<open>Classes (lines 226--246)\<close>

definition hasClass :: "snode list \<Rightarrow> path option \<Rightarrow> className \<Rightarrow> bool" where
  "hasClass f shadowNode c =
     (case shadowNode of
        None \<Rightarrow> False
      | Some p \<Rightarrow> (case props_at f p of None \<Rightarrow> False | Some a \<Rightarrow> c \<in> set (classList a)))"

definition setClass :: "path option \<Rightarrow> className \<Rightarrow> snode list \<Rightarrow> snode list" where
  "setClass shadowNode c f =
     (case shadowNode of
        None \<Rightarrow> f
      | Some p \<Rightarrow>
          upd_at (\<lambda>a. a\<lparr>classList := (if c \<in> set (classList a) then classList a
                                       else classList a @ [c])\<rparr>) p f)"

definition removeClass :: "path option \<Rightarrow> className \<Rightarrow> snode list \<Rightarrow> snode list" where
  "removeClass shadowNode c f =
     (case shadowNode of
        None \<Rightarrow> f
      | Some p \<Rightarrow> upd_at (\<lambda>a. a\<lparr>classList := removeAll c (classList a)\<rparr>) p f)"

definition removeAllClasses :: "path option \<Rightarrow> snode list \<Rightarrow> snode list" where
  "removeAllClasses shadowNode f =
     (case shadowNode of
        None \<Rightarrow> f
      | Some p \<Rightarrow> upd_at (\<lambda>a. a\<lparr>classList := []\<rparr>) p f)"

text \<open>
  \<open>doc.getElementsByClassName(c)\<close>: the elements of the document with that class, in
  tree order. The collection is live: it is read again after every change.
\<close>

definition getElementsByClassName :: "bool \<Rightarrow> snode list \<Rightarrow> className \<Rightarrow> path list" where
  "getElementsByClassName att f c = filter (\<lambda>p. hasClass f (Some p) c) (docPaths att f)"

section \<open>Facts about paths and classes\<close>

lemma length_upd_at [simp]: "length (upd_at g p f) = length f"
  by (cases p) auto

lemma childNodes_map_props [simp]: "childNodes (map_props g n) = childNodes n"
  by (cases n) simp

lemma props_map_props [simp]: "props (map_props g n) = g (props n)"
  by (cases n) simp

lemma childNodes_set_kids [simp]: "childNodes (set_kids n ks) = ks"
  by (cases n) simp

lemma props_set_kids [simp]: "props (set_kids n ks) = props n"
  by (cases n) simp

lemma paths_from_update:
  "k < length xs \<Longrightarrow> paths_from 0 (childNodes x) = paths_from 0 (childNodes (xs ! k))
   \<Longrightarrow> paths_from n (xs[k := x]) = paths_from n xs"
proof (induction xs arbitrary: n k)
  case Nil
  then show ?case by simp
next
  case (Cons y ys)
  show ?case
  proof (cases k)
    case 0
    with Cons.prems show ?thesis by (cases x; cases y) simp
  next
    case (Suc j)
    with Cons show ?thesis by (cases y) simp
  qed
qed

lemma paths_from_upd_at [simp]: "paths_from n (upd_at g p f) = paths_from n f"
proof (induction p arbitrary: f n)
  case Nil
  then show ?case by simp
next
  case (Cons k p)
  show ?case
    by (simp add: paths_from_update Cons.IH)
qed

lemma paths_from_take_upd_at [simp]:
  "paths_from n (take m (upd_at g p f)) = paths_from n (take m f)"
proof (cases p)
  case Nil
  then show ?thesis by simp
next
  case (Cons k q)
  show ?thesis
  proof (cases "k < length f \<and> k < m")
    case True
    then show ?thesis
      using Cons by (simp add: take_update_swap paths_from_update)
  next
    case False
    then show ?thesis using Cons by (auto simp: take_update_swap list_update_beyond)
  qed
qed

lemma docPaths_upd_at [simp]: "docPaths att (upd_at g p f) = docPaths att f"
  by (simp add: docPaths_def paths_def)

lemma get_at_upd_at_props:
  "props_at (upd_at g p f) q = (if q = p then map_option g (props_at f p) else props_at f q)"
proof (induction p arbitrary: f q)
  case Nil
  then show ?case by (simp add: props_at_def)
next
  case (Cons k p)
  show ?case
  proof (cases q)
    case Nil
    then show ?thesis by (simp add: props_at_def)
  next
    case (Cons j r)
    show ?thesis
      using Cons.IH[of "childNodes (f ! k)" r] Cons
      by (auto simp: props_at_def nth_opt_def nth_list_update split: option.splits)
  qed
qed


lemma hasClass_removeClass:
  "hasClass (removeClass (Some p) c f) (Some q) c' =
     (hasClass f (Some q) c' \<and> \<not> (q = p \<and> c' = c))"
  by (auto simp: hasClass_def removeClass_def get_at_upd_at_props split: option.splits)

lemma hasClass_setClass:
  "hasClass (setClass (Some p) c f) (Some q) c' =
     (hasClass f (Some q) c' \<or> (q = p \<and> c' = c \<and> props_at f p \<noteq> None))"
  by (auto simp: hasClass_def setClass_def get_at_upd_at_props split: option.splits)

lemma hasClass_removeAllClasses:
  "hasClass (removeAllClasses (Some p) f) (Some q) c' = (hasClass f (Some q) c' \<and> q \<noteq> p)"
  by (auto simp: hasClass_def removeAllClasses_def get_at_upd_at_props split: option.splits)

lemma docPaths_removeClass [simp]: "docPaths att (removeClass x c f) = docPaths att f"
  by (cases x) (simp_all add: removeClass_def)

lemma docPaths_setClass [simp]: "docPaths att (setClass x c f) = docPaths att f"
  by (cases x) (simp_all add: setClass_def)

lemma docPaths_removeAllClasses [simp]: "docPaths att (removeAllClasses x f) = docPaths att f"
  by (cases x) (simp_all add: removeAllClasses_def)

lemma byClass_removeAllClasses:
  "getElementsByClassName att (removeAllClasses (Some p) f) c =
     filter (\<lambda>q. q \<noteq> p) (getElementsByClassName att f c)"
  by (simp add: getElementsByClassName_def hasClass_removeAllClasses conj_commute)

lemma byClass_removeClass:
  "getElementsByClassName att (removeClass (Some p) c f) c =
     filter (\<lambda>q. q \<noteq> p) (getElementsByClassName att f c)"
  by (simp add: getElementsByClassName_def hasClass_removeClass conj_commute)

lemma byClass_removeClass_other:
  "c' \<noteq> c \<Longrightarrow>
   getElementsByClassName att (removeClass (Some p) c f) c' = getElementsByClassName att f c'"
  by (simp add: getElementsByClassName_def hasClass_removeClass)

lemma filter_neq_hd_less: "xs = p # r \<Longrightarrow> length (filter (\<lambda>q. q \<noteq> p) xs) < length xs"
  by (simp add: le_imp_less_Suc)

lemma get_at_Nil [simp]: "get_at [] p = None"
  by (cases p) (simp_all add: nth_opt_def)

lemma get_at_Cons_0 [simp]:
  "get_at (x # f) (0 # r) = (if r = [] then Some x else get_at (childNodes x) r)"
  by (simp add: nth_opt_def)

lemma get_at_Cons_Suc [simp]: "get_at (x # f) (Suc k # r) = get_at f (k # r)"
  by (simp add: nth_opt_def)

declare get_at.simps(2) [simp del]

lemma in_paths_from:
  "p \<in> set (paths_from n f) \<longleftrightarrow> (\<exists>k r. p = (n + k) # r \<and> get_at f (k # r) \<noteq> None)"
proof (induction n f arbitrary: p rule: paths_from.induct)
  case (1 n)
  then show ?case by simp
next
  case (2 n a ks f)
  show ?case
  proof
    assume "p \<in> set (paths_from n (SNode a ks # f))"
    then consider "p = [n]" | r where "p = n # r" "r \<in> set (paths_from 0 ks)"
      | "p \<in> set (paths_from (Suc n) f)" by auto
    then show "\<exists>k r. p = (n + k) # r \<and> get_at (SNode a ks # f) (k # r) \<noteq> None"
    proof cases
      case 1
      then show ?thesis by (intro exI[of _ 0] exI[of _ "[]"]) simp
    next
      case 2
      then obtain k r' where "r = k # r'" "get_at ks (k # r') \<noteq> None"
        using "2.IH"(1)[of r] by auto
      with 2(1) show ?thesis
        by (intro exI[of _ 0] exI[of _ r]) simp
    next
      case 3
      then obtain k r where "p = (Suc n + k) # r" "get_at f (k # r) \<noteq> None"
        using "2.IH"(2)[of p] by auto
      then show ?thesis
        by (intro exI[of _ "Suc k"] exI[of _ r]) simp
    qed
  next
    assume "\<exists>k r. p = (n + k) # r \<and> get_at (SNode a ks # f) (k # r) \<noteq> None"
    then obtain k r where kr: "p = (n + k) # r" "get_at (SNode a ks # f) (k # r) \<noteq> None"
      by blast
    show "p \<in> set (paths_from n (SNode a ks # f))"
    proof (cases k)
      case 0
      show ?thesis
      proof (cases r)
        case Nil
        with 0 kr show ?thesis by simp
      next
        case (Cons j r')
        with 0 kr have "get_at ks (j # r') \<noteq> None" by simp
        then have "r \<in> set (paths_from 0 ks)" using "2.IH"(1)[of r] Cons by auto
        with 0 kr show ?thesis by simp
      qed
    next
      case (Suc j)
      with kr have "get_at f (j # r) \<noteq> None" by simp
      then have "p \<in> set (paths_from (Suc n) f)"
        using "2.IH"(2)[of p] kr Suc by auto
      then show ?thesis by simp
    qed
  qed
qed

lemma in_paths: "p \<in> set (paths f) \<longleftrightarrow> get_at f p \<noteq> None"
  using in_paths_from[of p 0 f] by (cases p) (auto simp: paths_def)

section \<open>The engine's state\<close>

text \<open>
  The fields of \<open>ShadowDom\<close> (lines 26--32). \<open>docKids\<close> are the children of
  \<open>doc.documentElement\<close>: \<open>shadowDomRoot\<close> at position 0 and the \<open>removedNodes\<close>
  holder at position 1, with \<open>attached\<close> telling whether the holder is a child of the
  document element at the moment. \<open>nodeIndex\<close> is the \<open>NodeIndex\<close> property of the live
  nodes. \<open>assertFailed\<close> collects what \<open>assert\<close> reported.
\<close>

record ShadowDom =
  nextIndex :: nat
  nextUid :: nat
  docKids :: "snode list"
  attached :: bool
  shadowDocument :: "nat option"
  classifyNodes :: bool
  nodeIndex :: "nat \<Rightarrow> nat option"
  assertFailed :: "(string \<times> string) list"

datatype domError = HierarchyRequestError | NotFoundError | TypeError

text \<open>
  An exception that leaves a method of the engine: nothing in \<open>clarity.ts\<close> catches an
  exception, so the caller receives it, and the engine stays as the exception found it
  (the second component).
\<close>

type_synonym thrown = "domError \<times> ShadowDom"

definition container :: "nat \<Rightarrow> snode" where
  "container u =
     SNode \<lparr>uid = u, ident = None, node = None, layout = None, ignore = False,
            classList = []\<rparr> []"

text \<open>The state after the field initialisers and the constructor (lines 26--36).\<close>

definition newShadowDom :: ShadowDom where
  "newShadowDom =
     \<lparr>nextIndex = 0, nextUid = 2, docKids = [container 1, container 0], attached = False,
      shadowDocument = None, classifyNodes = False, nodeIndex = (\<lambda>_. None),
      assertFailed = []\<rparr>"

text \<open>
  Modelled from the spec: \<open>getNodeIndex\<close> of \<open>stateprovider\<close> is not among the sources;
  it is the registry's \<open>resolve(liveNode) -> index | unknown\<close>, reading the \<open>NodeIndex\<close>
  property that \<open>setNodeIndex\<close> writes, and \<open>null\<close> for no node.
\<close>

definition getNodeIndex :: "ShadowDom \<Rightarrow> lnode option \<Rightarrow> nat option" where
  "getNodeIndex s n = (case n of None \<Rightarrow> None | Some x \<Rightarrow> nodeIndex s (lid x))"

text \<open>
  Modelled from the spec: \<open>assert\<close> of \<open>utils\<close> is not among the sources; it reports a
  failed condition. Every call of it in \<open>clarity.ts\<close> is followed by a guard that
  returns on the same condition, so it returns to its caller.
\<close>

definition assert :: "bool \<Rightarrow> string \<Rightarrow> string \<Rightarrow> ShadowDom \<Rightarrow> ShadowDom" where
  "assert condition source_name comment_text s =
     (if condition then s
      else s\<lparr>assertFailed := assertFailed s @ [(source_name, comment_text)]\<rparr>)"

text \<open>\<open>setNodeIndex\<close> (lines 364--372).\<close>

definition setNodeIndex :: "lnode \<Rightarrow> ShadowDom \<Rightarrow> nat \<times> ShadowDom" where
  "setNodeIndex n s =
     (case getNodeIndex s (Some n) of
        None \<Rightarrow>
          (nextIndex s,
           s\<lparr>nextIndex := nextIndex s + 1,
             nodeIndex := (nodeIndex s)(lid n \<mapsto> nextIndex s)\<rparr>)
      | Some index \<Rightarrow> (index, s\<lparr>nodeIndex := (nodeIndex s)(lid n \<mapsto> index)\<rparr>))"

text \<open>\<open>getShadowNode\<close> (lines 38--41); \<open>isNumber\<close> fails on \<open>null\<close>.\<close>

definition getShadowNode :: "ShadowDom \<Rightarrow> nat option \<Rightarrow> path option" where
  "getShadowNode s index =
     (case index of None \<Rightarrow> None | Some i \<Rightarrow> getElementById (attached s) (docKids s) i)"

section \<open>The DOM's insertion of a child\<close>

text \<open>
  \<open>if (nextSibling) parent.insertBefore(n, nextSibling) else parent.appendChild(n)\<close>
  for an element \<open>n\<close> that is not in the document yet. \<open>insertBefore\<close> throws
  \<open>NotFoundError\<close> when the reference child is not a child of the parent. The result
  names the place of the new element.
\<close>

definition insertNew ::
  "snode \<Rightarrow> path \<Rightarrow> path option \<Rightarrow> snode list \<Rightarrow> domError + (path \<times> snode list)" where
  "insertNew n parent nextSibling f =
     (case nextSibling of
        None \<Rightarrow>
          (let k = (case kids_at f parent of None \<Rightarrow> 0 | Some ks \<Rightarrow> length ks)
           in Inr (parent @ [k], insert_at parent k n f))
      | Some c \<Rightarrow>
          if c \<noteq> [] \<and> butlast c = parent
          then Inr (c, insert_at parent (last c) n f)
          else Inl NotFoundError)"

text \<open>
  Where the element at path \<open>b\<close> is once the element at path \<open>a\<close> has been taken out:
  the later siblings of \<open>a\<close>, and all below them, move one position to the left.
\<close>

fun adjust_path :: "path \<Rightarrow> path \<Rightarrow> path" where
  "adjust_path (x # a) (y # b) =
     (if a = [] then (if x < y then (y - 1) # b else y # b)
      else if x = y then y # adjust_path a b
      else y # b)"
| "adjust_path a b = b"

text \<open>
  The same two calls for an element \<open>a\<close> that is in the document: the DOM first checks
  that \<open>a\<close> is not the parent or one of its ancestors (\<open>HierarchyRequestError\<close>), then
  that the reference child is a child of the parent (\<open>NotFoundError\<close>); a reference
  child that is the element itself stands for its next sibling. The element is then
  removed from its old parent and inserted at its new place.
\<close>

definition moveNode ::
  "path \<Rightarrow> path \<Rightarrow> path option \<Rightarrow> snode list \<Rightarrow> domError + (path \<times> snode list)" where
  "moveNode a parent nextSibling f =
     (case get_at f a of
        None \<Rightarrow> Inl NotFoundError
      | Some n \<Rightarrow>
          if prefix a parent then Inl HierarchyRequestError
          else if (case nextSibling of None \<Rightarrow> False
                   | Some c \<Rightarrow> \<not> (c \<noteq> [] \<and> butlast c = parent))
          then Inl NotFoundError
          else
            (let k = (case nextSibling of
                        None \<Rightarrow> (case kids_at f parent of None \<Rightarrow> 0 | Some ks \<Rightarrow> length ks)
                      | Some c \<Rightarrow> if c = a then Suc (last a) else last c);
                 k' = (if butlast a = parent \<and> last a < k then k - 1 else k);
                 parent' = adjust_path a parent
             in Inr (parent' @ [k'], insert_at parent' k' n (remove_at a f))))"

section \<open>The structural primitives (lines 43--136)\<close>

text \<open>
  \<open>insertShadowNode\<close>. \<open>parent && parent.ignore\<close> is read as a boolean; a container
  has no \<open>ignore\<close> property, which is falsy. The result is the new element's place, or
  nothing when the parent is missing.
\<close>

definition insertShadowNode ::
  "lnode \<Rightarrow> nat option \<Rightarrow> nat option \<Rightarrow> ILayoutState option \<Rightarrow> ShadowDom
    \<Rightarrow> thrown + (path option \<times> ShadowDom)" where
  "insertShadowNode n parentIndex nextSiblingIndex lay s0 =
     (let isDocument = (lid n = document_id);
          (index, s1) = setNodeIndex n s0;
          parent = (if isDocument then Some [0] else getShadowNode s1 parentIndex);
          nextSibling = getShadowNode s1 nextSiblingIndex;
          ign = (if isDocument then False
                 else (case parent of None \<Rightarrow> False
                       | Some p \<Rightarrow> (case props_at (docKids s1) p of
                                     None \<Rightarrow> False | Some a \<Rightarrow> ignore a)));
          shadowNode0 =
            \<lparr>uid = nextUid s1, ident = Some index, node = Some (lid n), layout = lay,
             ignore = ((case lay of None \<Rightarrow> False | Some l \<Rightarrow> tag l = IgnoreTag) \<or> ign),
             classList = []\<rparr>;
          s2 = s1\<lparr>nextUid := nextUid s1 + 1\<rparr>;
          s3 = (if isDocument then s2\<lparr>shadowDocument := Some (uid shadowNode0)\<rparr> else s2);
          s4 = assert (parent \<noteq> None) ''insertShadowNode'' ''parent is missing'' s3
      in case parent of
           None \<Rightarrow> Inr (None, s4)
         | Some p \<Rightarrow>
             (let cls = (if classifyNodes s4
                         then NewNodeClassName #
                              (if \<not> hasClass (docKids s4) parent NewNodeClassName
                               then [TopNewNodeClassName] else [])
                         else []);
                  shadowNode = SNode (shadowNode0\<lparr>classList := cls\<rparr>) []
              in case insertNew shadowNode p nextSibling (docKids s4) of
                   Inl e \<Rightarrow> Inl (e, s4)
                 | Inr (place, f) \<Rightarrow> Inr (Some place, s4\<lparr>docKids := f\<rparr>)))"

text \<open>\<open>moveShadowNode\<close> (lines 79--105).\<close>

definition moveShadowNode ::
  "nat option \<Rightarrow> nat option \<Rightarrow> nat option \<Rightarrow> ShadowDom
    \<Rightarrow> thrown + (path option \<times> ShadowDom)" where
  "moveShadowNode index newParentIndex newNextSiblingIndex s0 =
     (let shadowNode = getShadowNode s0 index;
          parent = getShadowNode s0 newParentIndex;
          nextSibling = getShadowNode s0 newNextSiblingIndex;
          s1 = assert (parent \<noteq> None) ''moveShadowNode'' ''parent is missing'' s0;
          s2 = assert (shadowNode \<noteq> None) ''moveShadowNode'' ''shadowNode is missing'' s1
      in case (parent, shadowNode) of
           (Some p, Some a) \<Rightarrow>
             (let f1 = (if classifyNodes s2
                        then (let f = setClass shadowNode MovedNodeClassName (docKids s2)
                              in if hasClass f parent NewNodeClassName
                                 then removeClass shadowNode TopNewNodeClassName f
                                 else setClass shadowNode TopNewNodeClassName f)
                        else docKids s2)
              in case moveNode a p nextSibling f1 of
                   Inl e \<Rightarrow> Inl (e, s2\<lparr>docKids := f1\<rparr>)
                 | Inr (place, f) \<Rightarrow> Inr (Some place, s2\<lparr>docKids := f\<rparr>))
         | _ \<Rightarrow> Inr (None, s2))"

text \<open>\<open>updateShadowNode\<close> (lines 107--125).\<close>

definition updateShadowNode :: "nat option \<Rightarrow> ILayoutState option \<Rightarrow> ShadowDom \<Rightarrow> ShadowDom" where
  "updateShadowNode index newLayout s0 =
     (let shadowNode = getShadowNode s0 index;
          s1 = assert (shadowNode \<noteq> None) ''updateShadowNode'' ''shadowNode is missing'' s0
      in case shadowNode of
           None \<Rightarrow> s1
         | Some p \<Rightarrow>
             (let f1 = (case newLayout of
                          None \<Rightarrow> docKids s1
                        | Some l \<Rightarrow>
                            upd_at (\<lambda>a. a\<lparr>layout := Some l, ignore := (tag l = IgnoreTag)\<rparr>)
                              p (docKids s1));
                  f2 = (if classifyNodes s1 then setClass shadowNode UpdatedNodeClassName f1
                        else f1)
              in s1\<lparr>docKids := f2\<rparr>))"

text \<open>
  \<open>removeShadowNode\<close> (lines 127--136): \<open>this.removedNodes.appendChild(shadowNode)\<close>
  moves the element to the end of the holder, at path \<open>[1]\<close>.
\<close>

definition removeShadowNode :: "nat option \<Rightarrow> ShadowDom \<Rightarrow> thrown + ShadowDom" where
  "removeShadowNode index s0 =
     (let shadowNode = getShadowNode s0 index;
          s1 = assert (shadowNode \<noteq> None) ''removeShadowNode'' ''shadowNode is missing'' s0
      in case shadowNode of
           None \<Rightarrow> Inr s1
         | Some a \<Rightarrow>
             (case moveNode a [1] None (docKids s1) of
                Inl e \<Rightarrow> Inl (e, s1)
              | Inr (place, f) \<Rightarrow> Inr (s1\<lparr>docKids := f\<rparr>)))"

section \<open>Applying one mutation (lines 300--362)\<close>

text \<open>
  \<open>shouldProcessChildListMutation\<close>: the parent looked at is the mirror of the record's
  parent for a child without an index, and the child's present mirror parent otherwise.
\<close>

definition shouldProcessChildListMutation :: "ShadowDom \<Rightarrow> lnode \<Rightarrow> lnode \<Rightarrow> bool" where
  "shouldProcessChildListMutation s child parent =
     (let childNodeIndex = getNodeIndex s (Some child);
          parentIndex = getNodeIndex s (Some parent);
          parentShadowNode =
            (case childNodeIndex of
               None \<Rightarrow> getShadowNode s parentIndex
             | Some i \<Rightarrow>
                 (case getShadowNode s childNodeIndex of
                    None \<Rightarrow> None
                  | Some c \<Rightarrow> Some (butlast c)))
      in parentShadowNode \<noteq> None \<and> \<not> hasClass (docKids s) parentShadowNode FinalClassName)"

text \<open>
  \<open>applyInsert\<close>, with the loop over the live children of an inserted node
  (\<open>discoverChildren\<close>: from \<open>lastChild\<close> back through \<open>previousSibling\<close>, so the tail
  of the child list is done before its head).
\<close>

fun applyInsert ::
  "lnode \<Rightarrow> lnode \<Rightarrow> lnode option \<Rightarrow> lnode option \<Rightarrow> bool \<Rightarrow> ShadowDom \<Rightarrow> thrown + ShadowDom"
and discoverChildren ::
  "lnode \<Rightarrow> lnode option \<Rightarrow> lnode list \<Rightarrow> ShadowDom \<Rightarrow> thrown + ShadowDom"
where
  "applyInsert (LNode i ks) parent previous next force s =
     (let addedNode = LNode i ks;
          addedNodeIndex = getNodeIndex s (Some addedNode);
          parentIndex = getNodeIndex s (Some parent);
          nextSiblingIndex = getNodeIndex s next;
          validMutation = (shouldProcessChildListMutation s addedNode parent \<or> force)
      in if validMutation
         then (case addedNodeIndex of
                 None \<Rightarrow>
                   (case insertShadowNode addedNode parentIndex nextSiblingIndex None s of
                      Inl e \<Rightarrow> Inl e
                    | Inr (shadowNode, s1) \<Rightarrow>
                        discoverChildren addedNode None ks
                          (s1\<lparr>docKids := setClass shadowNode FinalClassName (docKids s1)\<rparr>))
               | Some _ \<Rightarrow>
                   (case moveShadowNode addedNodeIndex parentIndex (getNodeIndex s next) s of
                      Inl e \<Rightarrow> Inl e
                    | Inr (_, s1) \<Rightarrow> Inr s1))
         else Inr s)"
| "discoverChildren parent previous [] s = Inr s"
| "discoverChildren parent previous (c # cs) s =
     (case discoverChildren parent (Some c) cs s of
        Inl e \<Rightarrow> Inl e
      | Inr s1 \<Rightarrow>
          applyInsert c parent previous (case cs of [] \<Rightarrow> None | d # _ \<Rightarrow> Some d) True s1)"

text \<open>The equation of \<open>applyInsert\<close> for any added node.\<close>

lemma applyInsert_eq:
  "applyInsert a parent previous next force s =
     (if shouldProcessChildListMutation s a parent \<or> force
      then (case getNodeIndex s (Some a) of
              None \<Rightarrow>
                (case insertShadowNode a (getNodeIndex s (Some parent)) (getNodeIndex s next)
                        None s of
                   Inl e \<Rightarrow> Inl e
                 | Inr (shadowNode, s1) \<Rightarrow>
                     discoverChildren a None (lkids a)
                       (s1\<lparr>docKids := setClass shadowNode FinalClassName (docKids s1)\<rparr>))
            | Some i \<Rightarrow>
                (case moveShadowNode (Some i) (getNodeIndex s (Some parent))
                        (getNodeIndex s next) s of
                   Inl e \<Rightarrow> Inl e
                 | Inr (x, s1) \<Rightarrow> Inr s1))
      else Inr s)"
proof (cases a)
  case (LNode i ks)
  show ?thesis
    unfolding LNode by (simp add: Let_def split: option.splits sum.splits prod.splits)
qed

declare applyInsert.simps [simp del]

definition applyRemove :: "lnode \<Rightarrow> lnode \<Rightarrow> ShadowDom \<Rightarrow> thrown + ShadowDom" where
  "applyRemove removedNode parent s =
     (let removedNodeIndex = getNodeIndex s (Some removedNode)
      in if removedNodeIndex \<noteq> None
         then (if shouldProcessChildListMutation s removedNode parent
               then removeShadowNode removedNodeIndex s
               else Inr s)
         else Inr s)"

definition applyUpdate :: "lnode \<Rightarrow> ShadowDom \<Rightarrow> ShadowDom" where
  "applyUpdate updatedNode s =
     (let updatedNodeIndex = getNodeIndex s (Some updatedNode)
      in if updatedNodeIndex \<noteq> None then updateShadowNode updatedNodeIndex None s else s)"

section \<open>A batch of mutation records (lines 138--195)\<close>

text \<open>
  A \<open>MutationRecord\<close> of the DOM, with the fields the engine reads. \<open>attributeName\<close>
  and \<open>oldValue\<close> are passed to \<open>applyUpdate\<close>, which does not use them.
\<close>

datatype mutationType = attributes | characterData | childList

record MutationRecord =
  mutType :: mutationType
  mutTarget :: lnode
  mutAddedNodes :: "lnode list"
  mutRemovedNodes :: "lnode list"
  mutPreviousSibling :: "lnode option"
  mutNextSibling :: "lnode option"

text \<open>
  The loop over \<open>addedNodes\<close>, from the last to the first: the node at position \<open>j\<close>
  has for neighbours the added nodes next to it, and the record's own siblings at the
  two ends.
\<close>

fun insertAddedNodes ::
  "lnode \<Rightarrow> lnode option \<Rightarrow> lnode list \<Rightarrow> lnode option \<Rightarrow> ShadowDom \<Rightarrow> thrown + ShadowDom"
where
  "insertAddedNodes target previous [] next s = Inr s"
| "insertAddedNodes target previous (a # as) next s =
     (case insertAddedNodes target (Some a) as next s of
        Inl e \<Rightarrow> Inl e
      | Inr s1 \<Rightarrow>
          applyInsert a target previous (case as of [] \<Rightarrow> next | b # _ \<Rightarrow> Some b) False s1)"

fun removeRemovedNodes :: "lnode \<Rightarrow> lnode list \<Rightarrow> ShadowDom \<Rightarrow> thrown + ShadowDom" where
  "removeRemovedNodes target [] s = Inr s"
| "removeRemovedNodes target (r # rs) s =
     (case applyRemove r target s of
        Inl e \<Rightarrow> Inl e
      | Inr s1 \<Rightarrow> removeRemovedNodes target rs s1)"

definition applyMutation :: "MutationRecord \<Rightarrow> ShadowDom \<Rightarrow> thrown + ShadowDom" where
  "applyMutation mutation s =
     (case mutType mutation of
        attributes \<Rightarrow> Inr (applyUpdate (mutTarget mutation) s)
      | characterData \<Rightarrow> Inr (applyUpdate (mutTarget mutation) s)
      | childList \<Rightarrow>
          (case insertAddedNodes (mutTarget mutation) (mutPreviousSibling mutation)
                  (mutAddedNodes mutation) (mutNextSibling mutation) s of
             Inl e \<Rightarrow> Inl e
           | Inr s1 \<Rightarrow> removeRemovedNodes (mutTarget mutation) (mutRemovedNodes mutation) s1))"

fun applyMutations :: "MutationRecord list \<Rightarrow> ShadowDom \<Rightarrow> thrown + ShadowDom" where
  "applyMutations [] s = Inr s"
| "applyMutations (mutation # mutations) s =
     (case applyMutation mutation s of
        Inl e \<Rightarrow> Inl e
      | Inr s1 \<Rightarrow> applyMutations mutations s1)"

section \<open>The summary (lines 248--298)\<close>

record IShadowDomMutationSummary =
  newNodes :: "path list"
  movedNodes :: "path list"
  updatedNodes :: "path list"
  removedNodes :: "path list"

text \<open>The children of an element, as references, left to right.\<close>

definition kidPaths :: "snode list \<Rightarrow> path \<Rightarrow> path list" where
  "kidPaths f p =
     (case get_at f p of
        None \<Rightarrow> []
      | Some n \<Rightarrow> map (\<lambda>i. p @ [i]) [0..<length (childNodes n)])"

text \<open>
  The loops of \<open>getMutationSummary\<close> over a live collection: while it is not empty,
  report its first element and remove all its classes (lines 275--287, once for the
  moved and once for the updated nodes).
\<close>

function collectLoop ::
  "bool \<Rightarrow> className \<Rightarrow> snode list \<Rightarrow> path list \<Rightarrow> snode list \<times> path list" where
  "collectLoop att c f out =
     (case getElementsByClassName att f c of
        [] \<Rightarrow> (f, out)
      | next # _ \<Rightarrow> collectLoop att c (removeAllClasses (Some next) f) (out @ [next]))"
  by pat_completeness auto
termination
  by (relation "measure (\<lambda>(att, c, f, out). length (getElementsByClassName att f c))")
     (auto simp: byClass_removeAllClasses le_imp_less_Suc)

function finalLoop :: "bool \<Rightarrow> snode list \<Rightarrow> snode list" where
  "finalLoop att f =
     (case getElementsByClassName att f FinalClassName of
        [] \<Rightarrow> f
      | n # _ \<Rightarrow> finalLoop att (removeClass (Some n) FinalClassName f))"
  by pat_completeness auto
termination
  by (relation "measure (\<lambda>(att, f). length (getElementsByClassName att f FinalClassName))")
     (auto simp: byClass_removeClass le_imp_less_Suc)

text \<open>
  The loop that collects the new nodes (lines 256--273). \<open>discoverQueueLoop\<close> is the
  inner loop over \<open>discoverQueue\<close>: \<open>shift\<close> takes the first reference, \<open>push\<close> adds
  the children at the end, the last child first. \<open>allNew\<close> counts the elements that
  still carry the class, for termination.
\<close>

definition allNew :: "snode list \<Rightarrow> path list" where
  "allNew f = filter (\<lambda>p. hasClass f (Some p) NewNodeClassName) (paths f)"

lemma paths_removeClass [simp]: "paths (removeClass x c f) = paths f"
  by (cases x) (simp_all add: removeClass_def paths_def)

lemma hasClass_in_paths: "hasClass f (Some p) c \<Longrightarrow> p \<in> set (paths f)"
  by (auto simp: hasClass_def props_at_def in_paths split: option.splits)

lemma allNew_removeClass:
  "allNew (removeClass (Some p) NewNodeClassName f) = filter (\<lambda>q. q \<noteq> p) (allNew f)"
  by (simp add: allNew_def hasClass_removeClass conj_commute)

lemma allNew_removeClass_less:
  "hasClass f (Some p) NewNodeClassName \<Longrightarrow>
   length (allNew (removeClass (Some p) NewNodeClassName f)) < length (allNew f)"
  unfolding allNew_removeClass
  by (rule length_filter_less[of p]) (auto simp: allNew_def hasClass_in_paths)

function discoverQueueLoop ::
  "path list \<Rightarrow> snode list \<Rightarrow> path list \<Rightarrow> snode list \<times> path list" where
  "discoverQueueLoop [] f out = (f, out)"
| "discoverQueueLoop (next # discoverQueue) f out =
     (if hasClass f (Some next) NewNodeClassName
      then discoverQueueLoop (discoverQueue @ rev (kidPaths f next))
             (removeClass (Some next) NewNodeClassName f) (out @ [next])
      else discoverQueueLoop discoverQueue f out)"
  by pat_completeness auto
termination
  by (relation "measures [\<lambda>(q, f, out). length (allNew f), \<lambda>(q, f, out). length q]")
     (auto simp: allNew_removeClass_less)

lemma discoverQueueLoop_allNew_le:
  "length (allNew (fst (discoverQueueLoop q f out))) \<le> length (allNew f)"
proof (induction q f out rule: discoverQueueLoop.induct)
  case (1 f out)
  then show ?case by simp
next
  case (2 n q f out)
  show ?case
  proof (cases "hasClass f (Some n) NewNodeClassName")
    case True
    with 2 allNew_removeClass_less[OF True] show ?thesis by simp
  next
    case False
    with 2 show ?thesis by simp
  qed
qed

lemma discoverQueueLoop_allNew_less:
  "hasClass f (Some n) NewNodeClassName \<Longrightarrow>
   length (allNew (fst (discoverQueueLoop [n] f out))) < length (allNew f)"
  using discoverQueueLoop_allNew_le[of "rev (kidPaths f n)" "removeClass (Some n) NewNodeClassName f" "out @ [n]"]
    allNew_removeClass_less[of f n]
  by simp

lemma discoverQueueLoop_allNew_less':
  "hasClass f (Some n) NewNodeClassName \<Longrightarrow> (f', out') = discoverQueueLoop [n] f out \<Longrightarrow>
   length (allNew f') < length (allNew f)"
  using discoverQueueLoop_allNew_less[of f n out] by (metis fst_conv)

lemma byClass_hd_hasClass:
  "getElementsByClassName att f c = n # r \<Longrightarrow> hasClass f (Some n) c"
  by (metis filter_eq_ConsD getElementsByClassName_def)

function newNodesLoop :: "bool \<Rightarrow> snode list \<Rightarrow> path list \<Rightarrow> snode list \<times> path list" where
  "newNodesLoop att f out =
     (case getElementsByClassName att f NewNodeClassName of
        [] \<Rightarrow> (f, out)
      | topNode # _ \<Rightarrow>
          (case discoverQueueLoop [topNode] f out of
             (f', out') \<Rightarrow> newNodesLoop att f' out'))"
  by pat_completeness auto
termination
  by (relation "measure (\<lambda>(att, f, out). length (allNew f))")
     (auto simp: case_prod_beta dest!: byClass_hd_hasClass
        intro: le_less_trans[OF discoverQueueLoop_allNew_le allNew_removeClass_less])

text \<open>\<open>getMutationSummary\<close> (lines 248--298).\<close>

definition getMutationSummary :: "ShadowDom \<Rightarrow> IShadowDomMutationSummary \<times> ShadowDom" where
  "getMutationSummary s =
     (let (f1, new) = newNodesLoop (attached s) (docKids s) [];
          (f2, moved) = collectLoop (attached s) MovedNodeClassName f1 [];
          (f3, updated) = collectLoop (attached s) UpdatedNodeClassName f2 [];
          removed = filter (\<lambda>next. \<not> hasClass f3 (Some next) NewNodeClassName)
                      (kidPaths f3 [1])
      in (\<lparr>newNodes = new, movedNodes = moved, updatedNodes = updated,
           removedNodes = removed\<rparr>,
          s\<lparr>docKids := f3\<rparr>))"

text \<open>\<open>this.removedNodes.innerHTML = ""\<close>: the holder loses its children.\<close>

definition clearRemovedNodes :: "snode list \<Rightarrow> snode list" where
  "clearRemovedNodes f = (if 1 < length f then f[1 := set_kids (f ! 1) []] else f)"

text \<open>
  \<open>applyMutationBatch\<close> (lines 138--195). A DOM exception thrown while the records are
  applied leaves the function; nothing catches it, so the engine stays as the exception
  found it: the holder attached and \<open>classifyNodes\<close> on.
\<close>

definition applyMutationBatch ::
  "MutationRecord list \<Rightarrow> ShadowDom \<Rightarrow> thrown + (IShadowDomMutationSummary \<times> ShadowDom)" where
  "applyMutationBatch mutations s0 =
     (case applyMutations mutations (s0\<lparr>attached := True, classifyNodes := True\<rparr>) of
        Inl e \<Rightarrow> Inl e
      | Inr s2 \<Rightarrow>
          (let (summary, s4) = getMutationSummary (s2\<lparr>attached := False\<rparr>);
               f5 = finalLoop (attached s4) (docKids s4)
           in Inr (summary, s4\<lparr>docKids := clearRemovedNodes f5, classifyNodes := False\<rparr>)))"

section \<open>The consistency check (lines 197--224)\<close>

text \<open>
  Modelled from the spec: \<open>traverseNodeTree\<close> of \<open>utils\<close> is not among the sources; it
  visits a tree in document order. It is used on the live tree and on the mirror.
\<close>

fun traverseNodeTree :: "lnode \<Rightarrow> lnode list" where
  "traverseNodeTree (LNode i ks) = LNode i ks # concat (map traverseNodeTree ks)"

fun traverseShadowTree :: "snode \<Rightarrow> snode list" where
  "traverseShadowTree (SNode a ks) = SNode a ks # concat (map traverseShadowTree ks)"

text \<open>The element that a stored reference (\<open>this.shadowDocument\<close>) denotes.\<close>

fun find_uid :: "nat \<Rightarrow> snode list \<Rightarrow> snode option" where
  "find_uid u [] = None"
| "find_uid u (SNode a ks # f) =
     (if uid a = u then Some (SNode a ks)
      else (case find_uid u ks of Some n \<Rightarrow> Some n | None \<Rightarrow> find_uid u f))"

text \<open>
  \<open>mirrorsRealDom\<close>, given the live \<open>document\<close>. Reading \<open>this.shadowDocument.node\<close>
  of a missing shadow document throws. An element that was discarded with the holder
  is not kept in this model; the check is then reported as thrown as well.
\<close>

definition mirrorsRealDom :: "lnode \<Rightarrow> ShadowDom \<Rightarrow> domError + (bool \<times> ShadowDom)" where
  "mirrorsRealDom document s0 =
     (let s1 = assert (shadowDocument s0 \<noteq> None) ''mirrorsRealDom''
                 ''shadowDocument is missing'' s0
      in case shadowDocument s0 of
           None \<Rightarrow> Inl TypeError
         | Some u \<Rightarrow>
             (case find_uid u (docKids s0) of
                None \<Rightarrow> Inl TypeError
              | Some sd \<Rightarrow>
                  (let s2 = assert (node (props sd) = Some (lid document)) ''mirrorsRealDom''
                              ''shadowDocument.node !== document'' s1;
                       domIndices = map (\<lambda>n. getNodeIndex s0 (Some n)) (traverseNodeTree document);
                       shadowDomIndices =
                         map (\<lambda>sn. case node (props sn) of None \<Rightarrow> None
                                    | Some l \<Rightarrow> nodeIndex s0 l)
                           (traverseShadowTree sd);
                       mirrors =
                         (if length domIndices = length shadowDomIndices
                          then list_all (\<lambda>i. domIndices ! i = shadowDomIndices ! i)
                                 [0..<length domIndices]
                          else False)
                   in Inr (mirrors, s2))))"

section \<open>The index registry: idempotent, monotone assignment\<close>

text \<open>
  The registry is bounded when every index a live node carries is below \<open>nextIndex\<close>.
  It is so in \<open>newShadowDom\<close> and stays so, since \<open>setNodeIndex\<close> is the only writer.
\<close>

definition registry_bounded :: "ShadowDom \<Rightarrow> bool" where
  "registry_bounded s = (\<forall>n i. nodeIndex s n = Some i \<longrightarrow> i < nextIndex s)"

lemma setNodeIndex_known:
  "nodeIndex s (lid n) = Some i \<Longrightarrow> setNodeIndex n s = (i, s)"
  by (simp add: setNodeIndex_def getNodeIndex_def map_upd_triv)

lemma setNodeIndex_unknown:
  "nodeIndex s (lid n) = None \<Longrightarrow>
   setNodeIndex n s =
     (nextIndex s, s\<lparr>nextIndex := nextIndex s + 1,
                     nodeIndex := (nodeIndex s)(lid n \<mapsto> nextIndex s)\<rparr>)"
  by (simp add: setNodeIndex_def getNodeIndex_def)

lemma setNodeIndex_bounded:
  "registry_bounded s \<Longrightarrow> registry_bounded (snd (setNodeIndex n s))"
  by (cases "nodeIndex s (lid n)")
     (auto simp: setNodeIndex_known setNodeIndex_unknown registry_bounded_def less_Suc_eq
           dest: spec)

lemma setNodeIndex_nextIndex_mono: "nextIndex s \<le> nextIndex (snd (setNodeIndex n s))"
  by (cases "nodeIndex s (lid n)") (auto simp: setNodeIndex_known setNodeIndex_unknown)

lemma setNodeIndex_result_lt:
  "registry_bounded s \<Longrightarrow> fst (setNodeIndex n s) < nextIndex (snd (setNodeIndex n s))"
  by (cases "nodeIndex s (lid n)")
     (auto simp: setNodeIndex_known setNodeIndex_unknown registry_bounded_def)

lemma assert_registry [simp]:
  "nextIndex (assert b x y s) = nextIndex s" "nodeIndex (assert b x y s) = nodeIndex s"
  by (simp_all add: assert_def)

lemma removeShadowNode_registry:
  "removeShadowNode index s = Inr s' \<Longrightarrow> nextIndex s' = nextIndex s \<and> nodeIndex s' = nodeIndex s"
  by (auto simp: removeShadowNode_def Let_def split: option.splits sum.splits)

text \<open>
  C9. \<open>setNodeIndex\<close> returns the index a node already has and changes nothing;
  otherwise it hands out \<open>nextIndex\<close>, which no node carries, and increments it. The
  node carries the returned index afterwards (so a second call returns it again), no
  other node's index changes, any node first indexed later gets a strictly greater
  index, and \<open>removeShadowNode\<close> gives no index back: the counter and the indices of the
  live nodes are as before.
\<close>

theorem setNodeIndex_idempotent_monotone:
  assumes "registry_bounded s"
  shows "(\<forall>i. nodeIndex s (lid n) = Some i \<longrightarrow> setNodeIndex n s = (i, s))
       \<and> (nodeIndex s (lid n) = None \<longrightarrow>
            fst (setNodeIndex n s) = nextIndex s
          \<and> nextIndex (snd (setNodeIndex n s)) = nextIndex s + 1
          \<and> (\<forall>m. nodeIndex s m \<noteq> Some (nextIndex s)))
       \<and> nodeIndex (snd (setNodeIndex n s)) (lid n) = Some (fst (setNodeIndex n s))
       \<and> fst (setNodeIndex n (snd (setNodeIndex n s))) = fst (setNodeIndex n s)
       \<and> (\<forall>m. m \<noteq> lid n \<longrightarrow> nodeIndex (snd (setNodeIndex n s)) m = nodeIndex s m)
       \<and> (\<forall>m. nodeIndex (snd (setNodeIndex n s)) (lid m) = None \<longrightarrow>
              fst (setNodeIndex n s) < fst (setNodeIndex m (snd (setNodeIndex n s))))
       \<and> registry_bounded (snd (setNodeIndex n s))
       \<and> (\<forall>index s'. removeShadowNode index (snd (setNodeIndex n s)) = Inr s' \<longrightarrow>
              nextIndex s' = nextIndex (snd (setNodeIndex n s))
            \<and> nodeIndex s' = nodeIndex (snd (setNodeIndex n s)))"
proof -
  let ?s' = "snd (setNodeIndex n s)"
  have known: "\<forall>i. nodeIndex s (lid n) = Some i \<longrightarrow> setNodeIndex n s = (i, s)"
    by (simp add: setNodeIndex_known)
  have fresh: "nodeIndex s (lid n) = None \<longrightarrow>
      fst (setNodeIndex n s) = nextIndex s \<and> nextIndex ?s' = nextIndex s + 1
      \<and> (\<forall>m. nodeIndex s m \<noteq> Some (nextIndex s))"
    using assms by (auto simp: setNodeIndex_unknown registry_bounded_def)
  have carried: "nodeIndex ?s' (lid n) = Some (fst (setNodeIndex n s))"
    by (cases "nodeIndex s (lid n)") (auto simp: setNodeIndex_known setNodeIndex_unknown)
  have again: "fst (setNodeIndex n ?s') = fst (setNodeIndex n s)"
    using setNodeIndex_known[OF carried] by simp
  have frame: "\<forall>m. m \<noteq> lid n \<longrightarrow> nodeIndex ?s' m = nodeIndex s m"
    by (cases "nodeIndex s (lid n)") (auto simp: setNodeIndex_known setNodeIndex_unknown)
  have later: "\<forall>m. nodeIndex ?s' (lid m) = None \<longrightarrow>
      fst (setNodeIndex n s) < fst (setNodeIndex m ?s')"
    using setNodeIndex_result_lt[OF assms, of n] by (auto simp: setNodeIndex_unknown)
  have removed: "\<forall>index s'. removeShadowNode index ?s' = Inr s' \<longrightarrow>
      nextIndex s' = nextIndex ?s' \<and> nodeIndex s' = nodeIndex ?s'"
    using removeShadowNode_registry by blast
  from known fresh carried again frame later setNodeIndex_bounded[OF assms, of n] removed
  show ?thesis by blast
qed

lemma registry_bounded_newShadowDom: "registry_bounded newShadowDom"
  by (simp add: registry_bounded_def newShadowDom_def)

theorem setNodeIndex_idempotent_monotone_witness:
  "registry_bounded newShadowDom
   \<and> fst (setNodeIndex (LNode 5 []) newShadowDom) = 0
   \<and> nextIndex (snd (setNodeIndex (LNode 5 []) newShadowDom)) = 1
   \<and> fst (setNodeIndex (LNode 5 []) (snd (setNodeIndex (LNode 5 []) newShadowDom))) = 0
   \<and> registry_bounded (snd (setNodeIndex (LNode 5 []) newShadowDom))"
proof -
  note t = setNodeIndex_idempotent_monotone[OF registry_bounded_newShadowDom, of "LNode 5 []"]
  have u: "nodeIndex newShadowDom (lid (LNode 5 [])) = None"
    by (simp add: newShadowDom_def)
  have n0: "nextIndex newShadowDom = 0"
    by (simp add: newShadowDom_def)
  from t u n0 registry_bounded_newShadowDom show ?thesis
    by simp
qed

section \<open>A synchronized mirror and the records of a change feed\<close>

definition childListRecord ::
  "lnode \<Rightarrow> lnode list \<Rightarrow> lnode list \<Rightarrow> lnode option \<Rightarrow> lnode option \<Rightarrow> MutationRecord" where
  "childListRecord t added removed previous next =
     \<lparr>mutType = childList, mutTarget = t, mutAddedNodes = added, mutRemovedNodes = removed,
      mutPreviousSibling = previous, mutNextSibling = next\<rparr>"

definition attributesRecord :: "lnode \<Rightarrow> MutationRecord" where
  "attributesRecord t =
     \<lparr>mutType = attributes, mutTarget = t, mutAddedNodes = [], mutRemovedNodes = [],
      mutPreviousSibling = None, mutNextSibling = None\<rparr>"

definition mirrorNode :: "nat \<Rightarrow> nat \<Rightarrow> nat \<Rightarrow> className list \<Rightarrow> snode list \<Rightarrow> snode" where
  "mirrorNode u i n cs ks =
     SNode \<lparr>uid = u, ident = Some i, node = Some n, layout = None, ignore = False,
            classList = cs\<rparr> ks"

text \<open>
  The live page \<open>document > body > K\<close> (identities 0, 1, 2) and its mirror as a
  discovery of the page leaves it: indices 0, 1, 2, nothing tagged, the holder empty.
\<close>

definition syncState :: ShadowDom where
  "syncState =
     \<lparr>nextIndex = 3, nextUid = 5,
      docKids = [SNode (props (container 1))
                   [mirrorNode 2 0 0 [] [mirrorNode 3 1 1 [] [mirrorNode 4 2 2 [] []]]],
                 container 0],
      attached = False, shadowDocument = Some 2, classifyNodes = False,
      nodeIndex = [0 \<mapsto> 0, 1 \<mapsto> 1, 2 \<mapsto> 2], assertFailed = []\<rparr>"

definition liveK :: lnode where
  "liveK = LNode 2 []"

definition liveT :: lnode where
  "liveT = LNode 3 []"

section \<open>C1: a move through a node inserted in the same batch\<close>

text \<open>
  The page script \<open>body.appendChild(T); T.appendChild(K); body.insertBefore(K, T)\<close>
  with a new element \<open>T\<close>. The observer delivers five records; when they arrive the
  page is \<open>document > body > [K, T]\<close> and \<open>T\<close> is empty.
\<close>

definition movedBody :: lnode where
  "movedBody = LNode 1 [liveK, liveT]"

definition movedThroughBatch :: "MutationRecord list" where
  "movedThroughBatch =
     [childListRecord movedBody [liveT] [] (Some liveK) None,
      childListRecord movedBody [] [liveK] None (Some liveT),
      childListRecord liveT [liveK] [] None None,
      childListRecord liveT [] [liveK] None None,
      childListRecord movedBody [liveK] [] None (Some liveT)]"

text \<open>
  C1 (the code departs from the claim). The mirror is synchronized before the batch.
  The third record moves \<open>K\<close> under the mirror of \<open>T\<close>, which is tagged final; the
  last two records are then quashed because the present mirror parent of \<open>K\<close> is
  final. The mirror ends as \<open>body > [T > [K]]\<close> while the page is \<open>body > [K, T]\<close>,
  and \<open>mirrorsRealDom\<close> returns false.
\<close>

theorem applyMutationBatch_move_through_new_node_diverges:
  "map_sum id fst (mirrorsRealDom (LNode 0 [LNode 1 [liveK]]) syncState) = Inr True
   \<and> map_sum fst (\<lambda>(summary, s). (summary, docKids s))
        (applyMutationBatch movedThroughBatch syncState) =
      Inr (\<lparr>newNodes = [[0, 0, 0, 0]], movedNodes = [[0, 0, 0, 0, 0]], updatedNodes = [],
            removedNodes = []\<rparr>,
           [SNode (props (container 1))
              [mirrorNode 2 0 0 []
                 [mirrorNode 3 1 1 []
                    [mirrorNode 5 3 3 [TopNewNodeClassName] [mirrorNode 4 2 2 [] []]]]],
            container 0])
   \<and> (case applyMutationBatch movedThroughBatch syncState of
         Inl e \<Rightarrow> Inl (fst e)
       | Inr (summary, s) \<Rightarrow> map_sum id fst (mirrorsRealDom (LNode 0 [movedBody]) s)) =
      Inr False"
  by code_simp

section \<open>C4: records about the children of a final node are quashed\<close>

lemma applyInsert_quashed:
  "\<not> shouldProcessChildListMutation s c parent \<Longrightarrow>
   applyInsert c parent previous next False s = Inr s"
  by (simp add: applyInsert_eq)








section \<open>C5: a record whose parent has no mirror node\<close>

lemma getShadowNode_assertFailed [simp]:
  "getShadowNode (s\<lparr>assertFailed := l\<rparr>) = getShadowNode s"
  by (rule ext) (simp add: getShadowNode_def split: option.splits)

lemma getNodeIndex_assertFailed [simp]:
  "getNodeIndex (s\<lparr>assertFailed := l\<rparr>) = getNodeIndex s"
  by (rule ext) (simp add: getNodeIndex_def split: option.splits)

lemma shouldProcess_assertFailed [simp]:
  "shouldProcessChildListMutation (s\<lparr>assertFailed := l\<rparr>) = shouldProcessChildListMutation s"
  by (intro ext) (simp add: shouldProcessChildListMutation_def Let_def split: option.splits)

lemma applyInsert_missing_parent:
  assumes "getShadowNode s (getNodeIndex s (Some parent)) = None"
  shows "\<exists>log. applyInsert a parent previous next False s
             = Inr (s\<lparr>assertFailed := assertFailed s @ log\<rparr>)
           \<and> (nodeIndex s (lid a) = None \<longrightarrow> log = [])"
proof (cases "shouldProcessChildListMutation s a parent")
  case False
  then have "applyInsert a parent previous next False s = Inr (s\<lparr>assertFailed := assertFailed s @ []\<rparr>)"
    by (simp add: applyInsert_quashed)
  then show ?thesis by blast
next
  case True
  then obtain i where i: "nodeIndex s (lid a) = Some i"
    using assms
    by (cases "nodeIndex s (lid a)")
       (auto simp: shouldProcessChildListMutation_def getNodeIndex_def Let_def)
  have "\<exists>log. moveShadowNode (Some i) (getNodeIndex s (Some parent)) x s
             = Inr (None, s\<lparr>assertFailed := assertFailed s @ log\<rparr>)" for x
    using assms
    by (cases "getShadowNode s (Some i)")
       (auto simp: moveShadowNode_def Let_def assert_def)
  then obtain log where
    "moveShadowNode (Some i) (getNodeIndex s (Some parent)) (getNodeIndex s next) s
       = Inr (None, s\<lparr>assertFailed := assertFailed s @ log\<rparr>)"
    by blast
  then have "applyInsert a parent previous next False s
       = Inr (s\<lparr>assertFailed := assertFailed s @ log\<rparr>)"
    using True i by (simp add: applyInsert_eq getNodeIndex_def)
  with i show ?thesis by auto
qed

lemma insertAddedNodes_missing_parent:
  assumes "getShadowNode s (getNodeIndex s (Some target)) = None"
  shows "\<exists>log. insertAddedNodes target previous added next s
             = Inr (s\<lparr>assertFailed := assertFailed s @ log\<rparr>)
           \<and> ((\<forall>a\<in>set added. nodeIndex s (lid a) = None) \<longrightarrow> log = [])"
proof (induction added arbitrary: previous)
  case Nil
  have "insertAddedNodes target previous [] next s = Inr (s\<lparr>assertFailed := assertFailed s @ []\<rparr>)"
    by simp
  then show ?case by blast
next
  case (Cons a as)
  from Cons.IH[of "Some a"] obtain log1 where
    1: "insertAddedNodes target (Some a) as next s = Inr (s\<lparr>assertFailed := assertFailed s @ log1\<rparr>)"
    and e1: "(\<forall>a\<in>set as. nodeIndex s (lid a) = None) \<longrightarrow> log1 = []"
    by blast
  let ?s1 = "s\<lparr>assertFailed := assertFailed s @ log1\<rparr>"
  have "getShadowNode ?s1 (getNodeIndex ?s1 (Some target)) = None"
    using assms by simp
  from applyInsert_missing_parent[OF this, of a previous
      "case as of [] \<Rightarrow> next | b # _ \<Rightarrow> Some b"]
  obtain log2 where
    2: "applyInsert a target previous (case as of [] \<Rightarrow> next | b # _ \<Rightarrow> Some b) False ?s1
        = Inr (?s1\<lparr>assertFailed := assertFailed ?s1 @ log2\<rparr>)"
    and e2: "nodeIndex ?s1 (lid a) = None \<longrightarrow> log2 = []"
    by (elim exE conjE)
  have "insertAddedNodes target previous (a # as) next s
      = Inr (s\<lparr>assertFailed := assertFailed s @ (log1 @ log2)\<rparr>)"
    using 1 2 by simp
  moreover have "(\<forall>a\<in>set (a # as). nodeIndex s (lid a) = None) \<longrightarrow> log1 @ log2 = []"
    using e1 e2 by simp
  ultimately show ?case by blast
qed

text \<open>
  C5 (as the code has it). When the parent that a child-list record names has no
  mirror node, the batch is not aborted. Every added node of the record is skipped:
  the state after the record is the state before it, but for what \<open>assert\<close> reported
  (nothing when the added nodes have no index; "parent is missing" from
  \<open>moveShadowNode\<close> for an added node with an index whose mirror parent is not final).
  The remaining records are then applied as usual.
\<close>

theorem missing_parent_record_skipped:
  assumes "getShadowNode s (getNodeIndex s (Some target)) = None"
    and "mutation = childListRecord target added [] previous next"
  shows "\<exists>log. applyMutation mutation s = Inr (s\<lparr>assertFailed := assertFailed s @ log\<rparr>)
           \<and> applyMutations (mutation # rest) s
               = applyMutations rest (s\<lparr>assertFailed := assertFailed s @ log\<rparr>)
           \<and> ((\<forall>a\<in>set added. nodeIndex s (lid a) = None) \<longrightarrow> log = [])"
proof -
  from insertAddedNodes_missing_parent[OF assms(1), of previous added "next"]
  obtain log where
    l: "insertAddedNodes target previous added next s
          = Inr (s\<lparr>assertFailed := assertFailed s @ log\<rparr>)"
    and e: "(\<forall>a\<in>set added. nodeIndex s (lid a) = None) \<longrightarrow> log = []"
    by blast
  have "applyMutation mutation s = Inr (s\<lparr>assertFailed := assertFailed s @ log\<rparr>)"
    using l assms(2) by (simp add: applyMutation_def childListRecord_def)
  with e show ?thesis by auto
qed

definition strangerParent :: lnode where
  "strangerParent = LNode 77 []"

theorem missing_parent_record_skipped_witness:
  "getShadowNode syncState (getNodeIndex syncState (Some strangerParent)) = None
   \<and> applyMutations
        (childListRecord strangerParent [liveT] [] None None
         # [childListRecord (LNode 1 [liveK, LNode 5 []]) [LNode 5 []] [] (Some liveK) None])
        syncState
     = applyMutations
         [childListRecord (LNode 1 [liveK, LNode 5 []]) [LNode 5 []] [] (Some liveK) None]
         syncState"
proof -
  have h: "getShadowNode syncState (getNodeIndex syncState (Some strangerParent)) = None"
    by code_simp
  have u: "\<forall>a\<in>set [liveT]. nodeIndex syncState (lid a) = None"
    by (simp add: liveT_def syncState_def)
  from missing_parent_record_skipped[OF h refl, of "[liveT]" None None
      "[childListRecord (LNode 1 [liveK, LNode 5 []]) [LNode 5 []] [] (Some liveK) None]"] u h
  show ?thesis by auto
qed

text \<open>
  The claim as stated fails: a batch whose first record names a parent without a
  mirror node returns a summary, and its second record has been applied (the new node
  is reported and stands in the mirror with index 3). With an unknown added node
  nothing is reported; with a known one the failed assertion is reported and the
  batch goes on all the same.
\<close>

theorem missing_parent_does_not_abort:
  "map_sum fst (\<lambda>(summary, s). (summary, assertFailed s, ident_at (docKids s) [0, 0, 0, 1]))
     (applyMutationBatch
        [childListRecord strangerParent [liveT] [] None None,
         childListRecord (LNode 1 [liveK, LNode 5 []]) [LNode 5 []] [] (Some liveK) None]
        syncState)
   = Inr (\<lparr>newNodes = [[0, 0, 0, 1]], movedNodes = [], updatedNodes = [],
           removedNodes = []\<rparr>, [], Some 3)
   \<and> map_sum fst (\<lambda>(summary, s). (summary, assertFailed s, ident_at (docKids s) [0, 0, 0, 1]))
     (applyMutationBatch
        [childListRecord strangerParent [liveK] [] None None,
         childListRecord (LNode 1 [liveK, LNode 5 []]) [LNode 5 []] [] (Some liveK) None]
        syncState)
   = Inr (\<lparr>newNodes = [[0, 0, 0, 1]], movedNodes = [], updatedNodes = [],
           removedNodes = []\<rparr>, [(''moveShadowNode'', ''parent is missing'')], Some 3)"
  by code_simp

section \<open>What the loops of the summary compute\<close>

lemma paths_from_nonempty: "p \<in> set (paths_from n f) \<Longrightarrow> p \<noteq> [] \<and> n \<le> hd p"
  by (auto simp: in_paths_from)

lemma distinct_paths_from: "distinct (paths_from n f)"
proof (induction n f rule: paths_from.induct)
  case (1 n)
  then show ?case by simp
next
  case (2 n a ks f)
  have "[n] \<notin> set (paths_from (Suc n) f)"
    using paths_from_nonempty[of "[n]" "Suc n" f] by auto
  moreover have "[] \<notin> set (paths_from 0 ks)"
    using paths_from_nonempty[of "[]" 0 ks] by auto
  moreover have "(#) n ` set (paths_from 0 ks) \<inter> set (paths_from (Suc n) f) = {}"
    using paths_from_nonempty[of _ "Suc n" f] by fastforce
  ultimately show ?case
    using 2 by (auto simp: distinct_map)
qed

lemma distinct_docPaths: "distinct (docPaths att f)"
  by (simp add: docPaths_def paths_def distinct_paths_from)

lemma distinct_byClass: "distinct (getElementsByClassName att f c)"
  by (simp add: getElementsByClassName_def distinct_docPaths)

lemma kids_length_upd_at:
  "map_option (\<lambda>n. length (childNodes n)) (get_at (upd_at g p f) q)
   = map_option (\<lambda>n. length (childNodes n)) (get_at f q)"
proof (induction p arbitrary: f q)
  case Nil
  then show ?case by simp
next
  case (Cons k p)
  show ?case
  proof (cases q)
    case Nil
    then show ?thesis by simp
  next
    case (Cons j r)
    show ?thesis
      using Cons.IH[of "childNodes (f ! k)" r] Cons
      by (auto simp: get_at.simps(2) nth_opt_def nth_list_update split: option.splits)
  qed
qed

lemma kidPaths_upd_at [simp]: "kidPaths (upd_at g p f) q = kidPaths f q"
  using kids_length_upd_at[of g p f q]
  by (auto simp: kidPaths_def split: option.splits)

lemma kidPaths_removeClass [simp]: "kidPaths (removeClass x c f) q = kidPaths f q"
  by (cases x) (simp_all add: removeClass_def)

lemma kidPaths_removeAllClasses [simp]: "kidPaths (removeAllClasses x f) q = kidPaths f q"
  by (cases x) (simp_all add: removeAllClasses_def)

lemma byClass_step_removeAll:
  "getElementsByClassName att f c = n # r \<Longrightarrow>
   getElementsByClassName att (removeAllClasses (Some n) f) c = r"
  using distinct_byClass[of att f c] by (auto simp: byClass_removeAllClasses filter_id_conv)

lemma byClass_step_remove:
  "getElementsByClassName att f c = n # r \<Longrightarrow>
   getElementsByClassName att (removeClass (Some n) c f) c = r"
  using distinct_byClass[of att f c] by (auto simp: byClass_removeClass filter_id_conv)

lemma collectLoop_out:
  "snd (collectLoop att c f out) = out @ getElementsByClassName att f c"
proof (induction att c f out rule: collectLoop.induct)
  case (1 att c f out)
  show ?case
  proof (cases "getElementsByClassName att f c")
    case Nil
    then show ?thesis by simp
  next
    case (Cons n r)
    with 1[OF Cons] byClass_step_removeAll[OF Cons] show ?thesis by simp
  qed
qed

lemma collectLoop_hasClass:
  "hasClass (fst (collectLoop att c f out)) (Some q) c' =
     (hasClass f (Some q) c' \<and> q \<notin> set (getElementsByClassName att f c))"
proof (induction att c f out rule: collectLoop.induct)
  case (1 att c f out)
  show ?case
  proof (cases "getElementsByClassName att f c")
    case Nil
    then show ?thesis by simp
  next
    case (Cons n r)
    with 1[OF Cons] byClass_step_removeAll[OF Cons] show ?thesis
      by (auto simp: hasClass_removeAllClasses)
  qed
qed

lemma collectLoop_docPaths [simp]:
  "docPaths att' (fst (collectLoop att c f out)) = docPaths att' f"
proof (induction att c f out rule: collectLoop.induct)
  case (1 att c f out)
  show ?case
  proof (cases "getElementsByClassName att f c")
    case Nil
    then show ?thesis by simp
  next
    case (Cons n r)
    with 1[OF Cons] show ?thesis by simp
  qed
qed

lemma collectLoop_kidPaths [simp]:
  "kidPaths (fst (collectLoop att c f out)) q = kidPaths f q"
proof (induction att c f out rule: collectLoop.induct)
  case (1 att c f out)
  show ?case
  proof (cases "getElementsByClassName att f c")
    case Nil
    then show ?thesis by simp
  next
    case (Cons n r)
    with 1[OF Cons] show ?thesis by simp
  qed
qed

lemma finalLoop_hasClass:
  "hasClass (finalLoop att f) (Some q) c' =
     (hasClass f (Some q) c' \<and>
      \<not> (c' = FinalClassName \<and> q \<in> set (getElementsByClassName att f FinalClassName)))"
proof (induction att f rule: finalLoop.induct)
  case (1 att f)
  show ?case
  proof (cases "getElementsByClassName att f FinalClassName")
    case Nil
    then show ?thesis by simp
  next
    case (Cons n r)
    with 1[OF Cons] byClass_step_remove[OF Cons] show ?thesis
      by (auto simp: hasClass_removeClass)
  qed
qed

lemma finalLoop_kidPaths [simp]: "kidPaths (finalLoop att f) q = kidPaths f q"
proof (induction att f rule: finalLoop.induct)
  case (1 att f)
  show ?case
  proof (cases "getElementsByClassName att f FinalClassName")
    case Nil
    then show ?thesis by simp
  next
    case (Cons n r)
    with 1[OF Cons] show ?thesis by simp
  qed
qed

lemma finalLoop_docPaths [simp]: "docPaths att' (finalLoop att f) = docPaths att' f"
proof (induction att f rule: finalLoop.induct)
  case (1 att f)
  show ?case
  proof (cases "getElementsByClassName att f FinalClassName")
    case Nil
    then show ?thesis by simp
  next
    case (Cons n r)
    with 1[OF Cons] show ?thesis by simp
  qed
qed

text \<open>
  The invariant of the loop over the new nodes, against the forest \<open>f0\<close> it started
  from: only the class new has been removed, and only from the reported nodes; the
  reported nodes are elements of the document that carried the class; none is
  reported twice; a reported node comes after its reported ancestors; and no reported
  node has an ancestor that still carries the class.
\<close>

definition anc_clear :: "snode list \<Rightarrow> path \<Rightarrow> bool" where
  "anc_clear f p = (\<forall>a. strict_prefix a p \<longrightarrow> \<not> hasClass f (Some a) NewNodeClassName)"

definition newInv :: "snode list \<Rightarrow> bool \<Rightarrow> snode list \<Rightarrow> path list \<Rightarrow> bool" where
  "newInv f0 att f out \<longleftrightarrow>
      (\<forall>p c. hasClass f (Some p) c
             = (hasClass f0 (Some p) c \<and> \<not> (c = NewNodeClassName \<and> p \<in> set out)))
    \<and> docPaths att f = docPaths att f0
    \<and> (\<forall>p. kidPaths f p = kidPaths f0 p)
    \<and> set out \<subseteq> set (getElementsByClassName att f0 NewNodeClassName)
    \<and> distinct out
    \<and> (\<forall>i<length out. \<forall>a. strict_prefix a (out ! i) \<and> a \<in> set out \<longrightarrow> a \<in> set (take i out))
    \<and> (\<forall>p\<in>set out. anc_clear f p)"

lemma anc_clear_removeClass:
  "anc_clear f p \<Longrightarrow> anc_clear (removeClass (Some n) c f) p"
  by (simp add: anc_clear_def hasClass_removeClass)

lemma anc_clear_snoc:
  "anc_clear f n \<Longrightarrow> anc_clear (removeClass (Some n) NewNodeClassName f) (n @ [i])"
  by (auto simp: anc_clear_def hasClass_removeClass strict_prefix_def)

lemma get_at_take:
  "get_at (take m f) (k # r) = (if k < m then get_at f (k # r) else None)"
  by (simp add: get_at.simps(2) nth_opt_def)

lemma get_at_snoc:
  "get_at f n = Some x \<Longrightarrow> get_at f (n @ [i]) = nth_opt (childNodes x) i"
proof (induction n arbitrary: f)
  case Nil
  then show ?case by simp
next
  case (Cons k n)
  then show ?case
    by (cases "n = []") (auto simp: get_at.simps(2) split: option.splits)
qed

lemma in_docPaths:
  "p \<in> set (docPaths att f) \<longleftrightarrow> get_at f p \<noteq> None \<and> (att \<or> hd p = 0)"
proof (cases p)
  case Nil
  then show ?thesis by (simp add: docPaths_def in_paths)
next
  case (Cons k r)
  then show ?thesis
    by (auto simp: docPaths_def in_paths get_at_take)
qed

lemma kid_visible:
  assumes "n \<in> set (docPaths att f)" and "r \<in> set (kidPaths f n)"
  shows "r \<in> set (docPaths att f)"
proof -
  from assms(1) obtain x where x: "get_at f n = Some x" and v: "att \<or> hd n = 0"
    by (auto simp: in_docPaths)
  from x have "n \<noteq> []" by auto
  from assms(2) x obtain i where i: "r = n @ [i]" "i < length (childNodes x)"
    by (auto simp: kidPaths_def)
  then have "get_at f r \<noteq> None"
    using get_at_snoc[OF x, of i] by (simp add: nth_opt_def)
  moreover have "hd r = hd n"
    using i \<open>n \<noteq> []\<close> by simp
  ultimately show ?thesis
    using v by (simp add: in_docPaths)
qed

lemma filter_before_hd:
  "filter P xs = t # r \<Longrightarrow> x \<in> set (takeWhile (\<lambda>y. y \<noteq> t) xs) \<Longrightarrow> \<not> P x"
proof (induction xs)
  case Nil
  then show ?case by simp
next
  case (Cons y ys)
  then show ?case by (auto split: if_splits)
qed

lemma prefix_before:
  "t \<in> set (paths_from n g) \<Longrightarrow> strict_prefix a t \<Longrightarrow> a \<noteq> [] \<Longrightarrow>
   a \<in> set (takeWhile (\<lambda>x. x \<noteq> t) (paths_from n g))"
proof (induction n g arbitrary: t a rule: paths_from.induct)
  case (1 n)
  then show ?case by simp
next
  case (2 n a0 ks f)
  let ?A = "map ((#) n) (paths_from 0 ks)"
  let ?B = "paths_from (Suc n) f"
  have tn: "t \<noteq> [n]"
    using "2.prems" by (auto simp: strict_prefix_def prefix_Cons)
  show ?case
  proof (cases "t \<in> set ?A")
    case True
    then obtain t' where t': "t = n # t'" "t' \<in> set (paths_from 0 ks)" by auto
    have tw: "takeWhile (\<lambda>x. x \<noteq> t) ([n] # ?A @ ?B) = [n] # takeWhile (\<lambda>x. x \<noteq> t) ?A"
      using tn True by simp
    from "2.prems" t' obtain a' where a': "a = n # a'" "strict_prefix a' t'"
      by (cases a) (auto simp: strict_prefix_def prefix_Cons)
    show ?thesis
    proof (cases "a' = []")
      case True
      with a' tw show ?thesis by simp
    next
      case False
      from "2.IH"(1)[OF t'(2) a'(2) False]
      have "a' \<in> set (takeWhile (\<lambda>x. x \<noteq> t') (paths_from 0 ks))" .
      then have "a \<in> set (takeWhile (\<lambda>x. x \<noteq> t) ?A)"
        using a' t' by (simp add: takeWhile_map comp_def)
      with tw show ?thesis by simp
    qed
  next
    case False
    then have tB: "t \<in> set ?B" using "2.prems" tn by auto
    have tw: "takeWhile (\<lambda>x. x \<noteq> t) ([n] # ?A @ ?B) = [n] # ?A @ takeWhile (\<lambda>x. x \<noteq> t) ?B"
    proof -
      have "takeWhile (\<lambda>x. x \<noteq> t) (?A @ ?B) = ?A @ takeWhile (\<lambda>x. x \<noteq> t) ?B"
        by (rule takeWhile_append2) (use False in auto)
      with tn show ?thesis by simp
    qed
    from "2.IH"(2)[OF tB "2.prems"(2,3)] tw show ?thesis by simp
  qed
qed

lemma byClass_hd_anc_clear:
  assumes "getElementsByClassName att f NewNodeClassName = t # r"
  shows "anc_clear f t"
  unfolding anc_clear_def
proof (intro allI impI notI)
  fix a
  assume sp: "strict_prefix a t" and h: "hasClass f (Some a) NewNodeClassName"
  from h have ne: "a \<noteq> []"
    by (auto simp: hasClass_def props_at_def split: option.splits)
  have t: "t \<in> set (docPaths att f)"
    using assms by (metis filter_is_subset getElementsByClassName_def list.set_intros(1) subsetD)
  have "a \<in> set (takeWhile (\<lambda>x. x \<noteq> t) (docPaths att f))"
    using t prefix_before[OF _ sp ne] by (auto simp: docPaths_def paths_def split: if_splits)
  from filter_before_hd[OF assms[unfolded getElementsByClassName_def] this] h
  show False by simp
qed

lemma newInv_step:
  assumes inv: "newInv f0 att f out"
    and new: "hasClass f (Some n) NewNodeClassName"
    and clear: "anc_clear f n"
    and vis: "n \<in> set (docPaths att f0)"
  shows "newInv f0 att (removeClass (Some n) NewNodeClassName f) (out @ [n])"
proof -
  let ?f1 = "removeClass (Some n) NewNodeClassName f"
  from inv have C: "\<And>p c. hasClass f (Some p) c
       = (hasClass f0 (Some p) c \<and> \<not> (c = NewNodeClassName \<and> p \<in> set out))"
    and S1: "docPaths att f = docPaths att f0"
    and S2: "\<And>p. kidPaths f p = kidPaths f0 p"
    and V: "set out \<subseteq> set (getElementsByClassName att f0 NewNodeClassName)"
    and D: "distinct out"
    and O: "\<And>i a. i < length out \<Longrightarrow> strict_prefix a (out ! i) \<Longrightarrow> a \<in> set out
             \<Longrightarrow> a \<in> set (take i out)"
    and A: "\<And>p. p \<in> set out \<Longrightarrow> anc_clear f p"
    by (auto simp: newInv_def)
  have n_out: "n \<notin> set out" and n0: "hasClass f0 (Some n) NewNodeClassName"
    using C[of n NewNodeClassName] new by auto
  have C': "\<forall>p c. hasClass ?f1 (Some p) c
       = (hasClass f0 (Some p) c \<and> \<not> (c = NewNodeClassName \<and> p \<in> set (out @ [n])))"
    by (auto simp: hasClass_removeClass C)
  have V': "set (out @ [n]) \<subseteq> set (getElementsByClassName att f0 NewNodeClassName)"
    using V vis n0 by (simp add: getElementsByClassName_def)
  have O': "\<forall>i<length (out @ [n]). \<forall>a. strict_prefix a ((out @ [n]) ! i) \<and> a \<in> set (out @ [n])
              \<longrightarrow> a \<in> set (take i (out @ [n]))"
  proof (intro allI impI)
    fix i a
    assume i: "i < length (out @ [n])"
      and a: "strict_prefix a ((out @ [n]) ! i) \<and> a \<in> set (out @ [n])"
    show "a \<in> set (take i (out @ [n]))"
    proof (cases "i < length out")
      case True
      then have e: "(out @ [n]) ! i = out ! i" by (simp add: nth_append)
      have "a \<noteq> n"
      proof
        assume "a = n"
        with a e have "strict_prefix n (out ! i)" by simp
        moreover have "anc_clear f (out ! i)" using A True by simp
        ultimately show False using new by (simp add: anc_clear_def)
      qed
      with a have "a \<in> set out" by simp
      from O[OF True _ this] a e True show ?thesis by simp
    next
      case False
      with i have e: "i = length out" by simp
      with a have "a \<noteq> n" by (auto simp: strict_prefix_def)
      with a e show ?thesis by simp
    qed
  qed
  have A': "\<forall>p\<in>set (out @ [n]). anc_clear ?f1 p"
    using A clear by (auto intro: anc_clear_removeClass)
  show ?thesis
    unfolding newInv_def using C' S1 S2 V' D n_out O' A' by simp
qed

lemma discoverQueueLoop_inv:
  "newInv f0 att f out \<Longrightarrow> \<forall>r\<in>set q. anc_clear f r \<and> r \<in> set (docPaths att f0) \<Longrightarrow>
   newInv f0 att (fst (discoverQueueLoop q f out)) (snd (discoverQueueLoop q f out))"
proof (induction q f out rule: discoverQueueLoop.induct)
  case (1 f out)
  then show ?case by simp
next
  case (2 n q f out)
  show ?case
  proof (cases "hasClass f (Some n) NewNodeClassName")
    case True
    let ?f1 = "removeClass (Some n) NewNodeClassName f"
    from "2.prems" have cl: "anc_clear f n" and vis: "n \<in> set (docPaths att f0)" by auto
    have inv1: "newInv f0 att ?f1 (out @ [n])"
      using newInv_step[OF "2.prems"(1) True cl vis] .
    have S1: "docPaths att f = docPaths att f0"
      using "2.prems"(1) by (simp add: newInv_def)
    have q1: "\<forall>r\<in>set (q @ rev (kidPaths f n)). anc_clear ?f1 r \<and> r \<in> set (docPaths att f0)"
    proof
      fix r
      assume "r \<in> set (q @ rev (kidPaths f n))"
      then consider "r \<in> set q" | "r \<in> set (kidPaths f n)" by auto
      then show "anc_clear ?f1 r \<and> r \<in> set (docPaths att f0)"
      proof cases
        case 1
        with "2.prems"(2) show ?thesis by (auto intro: anc_clear_removeClass)
      next
        case 2
        then obtain i where "r = n @ [i]"
          by (auto simp: kidPaths_def split: option.splits)
        moreover have "r \<in> set (docPaths att f0)"
          using kid_visible[OF _ 2, of att] vis S1 by simp
        ultimately show ?thesis using anc_clear_snoc[OF cl] by simp
      qed
    qed
    from "2.IH"(1)[OF True inv1 q1] True show ?thesis by simp
  next
    case False
    with "2.IH"(2)[OF False "2.prems"(1)] "2.prems"(2) show ?thesis by simp
  qed
qed

lemma newNodesLoop_inv:
  "newInv f0 att f out \<Longrightarrow>
   newInv f0 att (fst (newNodesLoop att f out)) (snd (newNodesLoop att f out))
   \<and> getElementsByClassName att (fst (newNodesLoop att f out)) NewNodeClassName = []"
proof (induction att f out rule: newNodesLoop.induct)
  case (1 att f out)
  show ?case
  proof (cases "getElementsByClassName att f NewNodeClassName")
    case Nil
    with "1.prems" show ?thesis by simp
  next
    case (Cons t r)
    obtain f' out' where d: "discoverQueueLoop [t] f out = (f', out')"
      by (cases "discoverQueueLoop [t] f out")
    have S1: "docPaths att f = docPaths att f0"
      using "1.prems" by (simp add: newInv_def)
    have "t \<in> set (docPaths att f)"
      using Cons by (metis filter_is_subset getElementsByClassName_def list.set_intros(1) subsetD)
    with byClass_hd_anc_clear[OF Cons] S1
    have q: "\<forall>r\<in>set [t]. anc_clear f r \<and> r \<in> set (docPaths att f0)" by simp
    from discoverQueueLoop_inv[OF "1.prems" q] d have "newInv f0 att f' out'" by simp
    from "1.IH"[OF Cons d[symmetric] this] Cons d show ?thesis by simp
  qed
qed

lemma discoverQueueLoop_docPaths [simp]:
  "docPaths att (fst (discoverQueueLoop q f out)) = docPaths att f"
  by (induction q f out rule: discoverQueueLoop.induct) simp_all

lemma newNodesLoop_docPaths_any [simp]:
  "docPaths att' (fst (newNodesLoop att f out)) = docPaths att' f"
proof (induction att f out rule: newNodesLoop.induct)
  case (1 att f out)
  show ?case
  proof (cases "getElementsByClassName att f NewNodeClassName")
    case Nil
    then show ?thesis by simp
  next
    case (Cons t r)
    obtain f' out' where d: "discoverQueueLoop [t] f out = (f', out')"
      by (cases "discoverQueueLoop [t] f out")
    have "docPaths att' f' = docPaths att' f"
      using discoverQueueLoop_docPaths[of att' "[t]" f out] d by simp
    with "1.IH"[OF Cons d[symmetric]] Cons d show ?thesis by simp
  qed
qed

lemma newInv_init: "newInv f att f []"
  by (simp add: newInv_def)

declare collectLoop.simps [simp del] newNodesLoop.simps [simp del] finalLoop.simps [simp del]

lemma getMutationSummary_eq:
  "getMutationSummary s =
     (let r1 = newNodesLoop (attached s) (docKids s) [];
          r2 = collectLoop (attached s) MovedNodeClassName (fst r1) [];
          r3 = collectLoop (attached s) UpdatedNodeClassName (fst r2) []
      in (\<lparr>newNodes = snd r1, movedNodes = snd r2, updatedNodes = snd r3,
           removedNodes = filter (\<lambda>next. \<not> hasClass (fst r3) (Some next) NewNodeClassName)
                            (kidPaths (fst r3) [1])\<rparr>,
          s\<lparr>docKids := fst r3\<rparr>))"
  by (simp add: getMutationSummary_def Let_def case_prod_beta)

lemma newNodesLoop_result:
  "newInv f att (fst (newNodesLoop att f [])) (snd (newNodesLoop att f []))"
  "getElementsByClassName att (fst (newNodesLoop att f [])) NewNodeClassName = []"
  using newNodesLoop_inv[OF newInv_init, of f att] by simp_all

lemma newNodesLoop_hasClass:
  "hasClass (fst (newNodesLoop att f [])) (Some p) c
   = (hasClass f (Some p) c \<and> \<not> (c = NewNodeClassName \<and> p \<in> set (snd (newNodesLoop att f []))))"
  using newNodesLoop_result(1)[of f att] by (simp add: newInv_def)

lemma newNodesLoop_kidPaths [simp]:
  "kidPaths (fst (newNodesLoop att f [])) p = kidPaths f p"
  using newNodesLoop_result(1)[of f att] by (simp add: newInv_def)

lemma newNodes_set:
  "set (snd (newNodesLoop att f [])) = set (getElementsByClassName att f NewNodeClassName)"
proof
  show "set (snd (newNodesLoop att f [])) \<subseteq> set (getElementsByClassName att f NewNodeClassName)"
    using newNodesLoop_result(1)[of f att] by (simp add: newInv_def)
next
  show "set (getElementsByClassName att f NewNodeClassName) \<subseteq> set (snd (newNodesLoop att f []))"
  proof
    fix p
    assume p: "p \<in> set (getElementsByClassName att f NewNodeClassName)"
    then have d: "p \<in> set (docPaths att f)" and h: "hasClass f (Some p) NewNodeClassName"
      by (simp_all add: getElementsByClassName_def)
    have "p \<notin> set (getElementsByClassName att (fst (newNodesLoop att f [])) NewNodeClassName)"
      by (simp add: newNodesLoop_result(2))
    with d have "\<not> hasClass (fst (newNodesLoop att f [])) (Some p) NewNodeClassName"
      by (simp add: getElementsByClassName_def)
    with h show "p \<in> set (snd (newNodesLoop att f []))"
      by (simp add: newNodesLoop_hasClass)
  qed
qed

lemma byClass_after_new:
  "c \<noteq> NewNodeClassName \<Longrightarrow>
   getElementsByClassName att (fst (newNodesLoop att f [])) c = getElementsByClassName att f c"
  by (simp add: getElementsByClassName_def newNodesLoop_hasClass)

lemma summary_moved:
  "movedNodes (fst (getMutationSummary s))
   = getElementsByClassName (attached s) (docKids s) MovedNodeClassName"
  by (simp add: getMutationSummary_eq Let_def collectLoop_out byClass_after_new)

lemma summary_updated:
  "updatedNodes (fst (getMutationSummary s))
   = filter (\<lambda>p. \<not> hasClass (docKids s) (Some p) MovedNodeClassName)
       (getElementsByClassName (attached s) (docKids s) UpdatedNodeClassName)"
proof -
  let ?att = "attached s"
  let ?f1 = "fst (newNodesLoop ?att (docKids s) [])"
  let ?f2 = "fst (collectLoop ?att MovedNodeClassName ?f1 [])"
  have "updatedNodes (fst (getMutationSummary s)) = getElementsByClassName ?att ?f2 UpdatedNodeClassName"
    by (simp add: getMutationSummary_eq Let_def collectLoop_out)
  also have "\<dots> = filter (\<lambda>p. hasClass (docKids s) (Some p) UpdatedNodeClassName
                        \<and> p \<notin> set (getElementsByClassName ?att (docKids s) MovedNodeClassName))
                    (docPaths ?att (docKids s))"
    by (simp add: getElementsByClassName_def[of ?att ?f2] collectLoop_hasClass
        newNodesLoop_hasClass byClass_after_new)
  also have "\<dots> = filter (\<lambda>p. \<not> hasClass (docKids s) (Some p) MovedNodeClassName)
       (getElementsByClassName ?att (docKids s) UpdatedNodeClassName)"
    by (auto simp: getElementsByClassName_def intro: filter_cong)
  finally show ?thesis .
qed

lemma summary_new:
  "newNodes (fst (getMutationSummary s)) = snd (newNodesLoop (attached s) (docKids s) [])"
  by (simp add: getMutationSummary_eq Let_def)

lemma summary_classes:
  "hasClass (docKids (snd (getMutationSummary s))) (Some q) c
   = (hasClass (docKids s) (Some q) c
      \<and> \<not> (c = NewNodeClassName \<and> q \<in> set (newNodes (fst (getMutationSummary s))))
      \<and> q \<notin> set (movedNodes (fst (getMutationSummary s)))
      \<and> q \<notin> set (updatedNodes (fst (getMutationSummary s))))"
proof -
  let ?att = "attached s"
  let ?r1 = "newNodesLoop ?att (docKids s) []"
  let ?r2 = "collectLoop ?att MovedNodeClassName (fst ?r1) []"
  let ?r3 = "collectLoop ?att UpdatedNodeClassName (fst ?r2) []"
  have 1: "docKids (snd (getMutationSummary s)) = fst ?r3"
    by (simp add: getMutationSummary_eq Let_def)
  have 2: "movedNodes (fst (getMutationSummary s)) = getElementsByClassName ?att (fst ?r1) MovedNodeClassName"
    by (simp add: getMutationSummary_eq Let_def collectLoop_out)
  have 3: "updatedNodes (fst (getMutationSummary s)) = getElementsByClassName ?att (fst ?r2) UpdatedNodeClassName"
    by (simp add: getMutationSummary_eq Let_def collectLoop_out)
  show ?thesis
    unfolding 1 2 3 summary_new
    by (simp add: collectLoop_hasClass newNodesLoop_hasClass conj_ac)
qed

lemma summary_frame:
  "docPaths att (docKids (snd (getMutationSummary s))) = docPaths att (docKids s)"
  "kidPaths (docKids (snd (getMutationSummary s))) p = kidPaths (docKids s) p"
  "attached (snd (getMutationSummary s)) = attached s"
  "classifyNodes (snd (getMutationSummary s)) = classifyNodes s"
  "nextIndex (snd (getMutationSummary s)) = nextIndex s"
  "nodeIndex (snd (getMutationSummary s)) = nodeIndex s"
  by (simp_all add: getMutationSummary_eq Let_def)

lemma hasClass_valid: "hasClass f (Some p) c \<Longrightarrow> get_at f p \<noteq> None"
  by (auto simp: hasClass_def props_at_def split: option.splits)

lemma byClass_iff:
  "p \<in> set (getElementsByClassName att f c) \<longleftrightarrow> hasClass f (Some p) c \<and> (att \<or> hd p = 0)"
  using hasClass_valid[of f p c] by (auto simp: getElementsByClassName_def in_docPaths)

lemma kidPaths_hd: "r \<in> set (kidPaths f [k]) \<Longrightarrow> hd r = k"
  by (auto simp: kidPaths_def split: option.splits)

section \<open>C6: the updated nodes of a summary\<close>

text \<open>
  C6 (as the code has it). \<open>updatedNodes\<close> holds, in the document order of the
  mirror, exactly the elements of the document tagged updated and not tagged moved;
  \<open>movedNodes\<close> holds the elements tagged moved, in document order as well; the new
  nodes are the elements tagged new. So no element is both in \<open>movedNodes\<close> and in
  \<open>updatedNodes\<close>, while an element tagged new and updated is in \<open>newNodes\<close> and in
  \<open>updatedNodes\<close>. With the holder detached, as \<open>applyMutationBatch\<close> has it when it
  asks for the summary, no removed node is in another list.
\<close>

theorem updatedNodes_in_document_order:
  "updatedNodes (fst (getMutationSummary s))
     = filter (\<lambda>p. \<not> hasClass (docKids s) (Some p) MovedNodeClassName)
         (getElementsByClassName (attached s) (docKids s) UpdatedNodeClassName)
   \<and> movedNodes (fst (getMutationSummary s))
     = getElementsByClassName (attached s) (docKids s) MovedNodeClassName
   \<and> set (newNodes (fst (getMutationSummary s)))
     = set (getElementsByClassName (attached s) (docKids s) NewNodeClassName)
   \<and> set (movedNodes (fst (getMutationSummary s)))
       \<inter> set (updatedNodes (fst (getMutationSummary s))) = {}
   \<and> (\<not> attached s \<longrightarrow>
        set (removedNodes (fst (getMutationSummary s)))
          \<inter> (set (newNodes (fst (getMutationSummary s)))
             \<union> set (movedNodes (fst (getMutationSummary s)))
             \<union> set (updatedNodes (fst (getMutationSummary s)))) = {})"
proof -
  let ?sm = "fst (getMutationSummary s)"
  have u: "updatedNodes ?sm
     = filter (\<lambda>p. \<not> hasClass (docKids s) (Some p) MovedNodeClassName)
         (getElementsByClassName (attached s) (docKids s) UpdatedNodeClassName)"
    by (rule summary_updated)
  have m: "movedNodes ?sm = getElementsByClassName (attached s) (docKids s) MovedNodeClassName"
    by (rule summary_moved)
  have n: "set (newNodes ?sm)
      = set (getElementsByClassName (attached s) (docKids s) NewNodeClassName)"
    by (simp add: summary_new newNodes_set)
  have d: "set (movedNodes ?sm) \<inter> set (updatedNodes ?sm) = {}"
    unfolding u m by (auto simp: byClass_iff)
  have r: "set (removedNodes ?sm) \<inter> (set (newNodes ?sm) \<union> set (movedNodes ?sm)
             \<union> set (updatedNodes ?sm)) = {}" if "\<not> attached s"
  proof -
    have "hd p = 1" if "p \<in> set (removedNodes ?sm)" for p
      using that kidPaths_hd[of p _ 1] by (auto simp: getMutationSummary_eq Let_def)
    moreover have "hd p = 0"
      if "p \<in> set (newNodes ?sm) \<union> set (movedNodes ?sm) \<union> set (updatedNodes ?sm)" for p
      using that \<open>\<not> attached s\<close> unfolding n m u by (auto simp: byClass_iff)
    ultimately show ?thesis by fastforce
  qed
  from u m n d r show ?thesis by blast
qed

definition updatedBatch :: "MutationRecord list" where
  "updatedBatch =
     [childListRecord (LNode 1 [liveK, liveT]) [liveT] [] (Some liveK) None,
      attributesRecord liveT,
      attributesRecord liveK,
      attributesRecord (LNode 1 [liveK, liveT])]"

theorem updatedNodes_in_document_order_witness:
  "\<not> attached ((projr (applyMutations updatedBatch
                          (syncState\<lparr>attached := True, classifyNodes := True\<rparr>)))
                  \<lparr>attached := False\<rparr>)
   \<and> updatedNodes (fst (getMutationSummary
        ((projr (applyMutations updatedBatch
                   (syncState\<lparr>attached := True, classifyNodes := True\<rparr>)))
           \<lparr>attached := False\<rparr>)))
     = [[0, 0, 0], [0, 0, 0, 0], [0, 0, 0, 1]]
   \<and> set (movedNodes (fst (getMutationSummary
        ((projr (applyMutations updatedBatch
                   (syncState\<lparr>attached := True, classifyNodes := True\<rparr>)))
           \<lparr>attached := False\<rparr>))))
      \<inter> set (updatedNodes (fst (getMutationSummary
        ((projr (applyMutations updatedBatch
                   (syncState\<lparr>attached := True, classifyNodes := True\<rparr>)))
           \<lparr>attached := False\<rparr>)))) = {}"
proof -
  let ?s = "(projr (applyMutations updatedBatch
                      (syncState\<lparr>attached := True, classifyNodes := True\<rparr>)))
              \<lparr>attached := False\<rparr>"
  have a: "\<not> attached ?s"
    by simp
  have b: "updatedNodes (fst (getMutationSummary ?s)) = [[0, 0, 0], [0, 0, 0, 0], [0, 0, 0, 1]]"
    by code_simp
  from updatedNodes_in_document_order[of ?s] a b show ?thesis
    by blast
qed

text \<open>
  The claim as stated fails. A node inserted and then changed in one batch is in
  \<open>newNodes\<close> and in \<open>updatedNodes\<close> of the same summary. And two nodes tagged
  updated, \<open>K\<close> first and its parent \<open>body\<close> second, are reported in document order,
  \<open>body\<close> first.
\<close>

theorem new_and_updated_node_reported_twice:
  "map_sum fst fst
     (applyMutationBatch
        [childListRecord (LNode 1 [liveK, liveT]) [liveT] [] (Some liveK) None,
         attributesRecord liveT] syncState)
   = Inr \<lparr>newNodes = [[0, 0, 0, 1]], movedNodes = [], updatedNodes = [[0, 0, 0, 1]],
          removedNodes = []\<rparr>
   \<and> map_sum fst fst
     (applyMutationBatch [attributesRecord liveK, attributesRecord (LNode 1 [liveK])] syncState)
   = Inr \<lparr>newNodes = [], movedNodes = [], updatedNodes = [[0, 0, 0], [0, 0, 0, 0]],
          removedNodes = []\<rparr>"
  by code_simp

section \<open>C7: what a batch leaves behind\<close>

lemma hasClass_clearRemovedNodes:
  "hasClass (clearRemovedNodes f) (Some (0 # p)) c = hasClass f (Some (0 # p)) c"
  by (simp add: hasClass_def props_at_def clearRemovedNodes_def get_at.simps(2) nth_opt_def)

lemma kidPaths_clearRemovedNodes: "kidPaths (clearRemovedNodes f) [Suc 0] = []"
  by (simp add: kidPaths_def clearRemovedNodes_def get_at.simps(2) nth_opt_def)

lemma summary_clears:
  assumes "c \<noteq> TopNewNodeClassName" and "c \<noteq> FinalClassName" and "attached s \<or> hd q = 0"
  shows "\<not> hasClass (docKids (snd (getMutationSummary s))) (Some q) c"
proof
  assume h: "hasClass (docKids (snd (getMutationSummary s))) (Some q) c"
  let ?sm = "fst (getMutationSummary s)"
  from h have h0: "hasClass (docKids s) (Some q) c"
    and nn: "\<not> (c = NewNodeClassName \<and> q \<in> set (newNodes ?sm))"
    and nm: "q \<notin> set (movedNodes ?sm)" and nu: "q \<notin> set (updatedNodes ?sm)"
    by (simp_all add: summary_classes)
  from assms(1,2) consider "c = NewNodeClassName" | "c = MovedNodeClassName"
    | "c = UpdatedNodeClassName" by (cases c) auto
  then show False
  proof cases
    case 1
    with nn h0 assms(3) show False
      by (simp add: summary_new newNodes_set byClass_iff)
  next
    case 2
    with nm h0 assms(3) show False
      by (simp add: summary_moved byClass_iff)
  next
    case 3
    with nu nm h0 assms(3) show False
      by (auto simp: summary_updated summary_moved byClass_iff)
  qed
qed

text \<open>
  C7 (as the code has it). When \<open>applyMutationBatch\<close> returns, no element of the
  mirror tree (the elements under \<open>shadowDomRoot\<close>, path \<open>0 # p\<close>) carries the class
  new, moved, updated or final, the holder of the removed nodes is empty and detached,
  and \<open>classifyNodes\<close> is false. The class top-new is not among them: the loop over
  the new nodes removes the class new only, and nothing reads top-new.
\<close>

theorem applyMutationBatch_clears_tags:
  assumes "applyMutationBatch mutations s = Inr (summary, s')"
  shows "(\<forall>p c. c \<noteq> TopNewNodeClassName \<longrightarrow> \<not> hasClass (docKids s') (Some (0 # p)) c)
       \<and> kidPaths (docKids s') [1] = [] \<and> \<not> classifyNodes s' \<and> \<not> attached s'"
proof -
  from assms obtain s2 where
    s2: "applyMutations mutations (s\<lparr>attached := True, classifyNodes := True\<rparr>) = Inr s2"
    by (auto simp: applyMutationBatch_def split: sum.splits)
  let ?s3 = "s2\<lparr>attached := False\<rparr>"
  let ?s4 = "snd (getMutationSummary ?s3)"
  have s': "s' = ?s4\<lparr>docKids := clearRemovedNodes (finalLoop (attached ?s4) (docKids ?s4)),
                     classifyNodes := False\<rparr>"
    using assms s2 by (simp add: applyMutationBatch_def Let_def case_prod_beta)
  have att: "attached ?s4 = False"
    by (simp add: summary_frame)
  have "\<not> hasClass (docKids s') (Some (0 # p)) c" if c: "c \<noteq> TopNewNodeClassName" for p c
  proof (cases "c = FinalClassName")
    case True
    show ?thesis
      unfolding s' by (simp add: hasClass_clearRemovedNodes finalLoop_hasClass True byClass_iff)
  next
    case False
    from summary_clears[OF c False, of ?s3 "0 # p"]
    show ?thesis
      unfolding s' by (simp add: hasClass_clearRemovedNodes finalLoop_hasClass)
  qed
  then show ?thesis
    unfolding s' by (simp add: kidPaths_clearRemovedNodes att)
qed

theorem applyMutationBatch_clears_tags_witness:
  "\<not> hasClass
       (docKids (snd (projr (applyMutationBatch
          [childListRecord (LNode 1 [liveK, liveT]) [liveT] [] (Some liveK) None] syncState))))
       (Some (0 # [0, 0, 1])) NewNodeClassName
   \<and> ident_at
       (docKids (snd (projr (applyMutationBatch
          [childListRecord (LNode 1 [liveK, liveT]) [liveT] [] (Some liveK) None] syncState))))
       (0 # [0, 0, 1]) = Some 3
   \<and> kidPaths
       (docKids (snd (projr (applyMutationBatch
          [childListRecord (LNode 1 [liveK, liveT]) [liveT] [] (Some liveK) None] syncState))))
       [1] = []"
proof -
  let ?r = "applyMutationBatch
              [childListRecord (LNode 1 [liveK, liveT]) [liveT] [] (Some liveK) None] syncState"
  have "\<not> isl ?r"
    by code_simp
  then have a: "?r = Inr (fst (projr ?r), snd (projr ?r))"
    by simp
  have b: "ident_at (docKids (snd (projr ?r))) (0 # [0, 0, 1]) = Some 3"
    by code_simp
  from applyMutationBatch_clears_tags[OF a] b show ?thesis
    by simp
qed

text \<open>
  The claim as stated fails: after a batch that inserts one node, the node's mirror
  still carries the class top-new.
\<close>

theorem top_new_tag_survives_batch:
  "map_sum fst (\<lambda>(summary, s). (newNodes summary,
                                hasClass (docKids s) (Some [0, 0, 0, 1]) TopNewNodeClassName))
     (applyMutationBatch
        [childListRecord (LNode 1 [liveK, liveT]) [liveT] [] (Some liveK) None] syncState)
   = Inr ([[0, 0, 0, 1]], True)"
  by code_simp

section \<open>C3: the order of the new nodes\<close>

lemma discoverQueueLoop_out_prefix:
  "\<exists>ys. snd (discoverQueueLoop q f out) = out @ ys"
  by (induction q f out rule: discoverQueueLoop.induct) auto

lemma newNodesLoop_out_prefix:
  "\<exists>ys. snd (newNodesLoop att f out) = out @ ys"
proof (induction att f out rule: newNodesLoop.induct)
  case (1 att f out)
  show ?case
  proof (cases "getElementsByClassName att f NewNodeClassName")
    case Nil
    then show ?thesis by (simp add: newNodesLoop.simps)
  next
    case (Cons t r)
    obtain f' out' where d: "discoverQueueLoop [t] f out = (f', out')"
      by (cases "discoverQueueLoop [t] f out")
    from discoverQueueLoop_out_prefix[of "[t]" f out] d obtain ys where "out' = out @ ys"
      by auto
    with "1.IH"[OF Cons d[symmetric]] Cons d show ?thesis
      by (auto simp: newNodesLoop.simps)
  qed
qed

lemma newNodesLoop_hd:
  assumes "getElementsByClassName att f NewNodeClassName = t # r"
  shows "\<exists>ys. snd (newNodesLoop att f []) = t # ys"
proof -
  have h: "hasClass f (Some t) NewNodeClassName"
    using assms by (rule byClass_hd_hasClass)
  let ?d = "discoverQueueLoop (rev (kidPaths f t)) (removeClass (Some t) NewNodeClassName f) [t]"
  obtain ys where ys: "snd ?d = [t] @ ys"
    using discoverQueueLoop_out_prefix by blast
  obtain zs where "snd (newNodesLoop att (fst ?d) (snd ?d)) = snd ?d @ zs"
    using newNodesLoop_out_prefix by blast
  with ys h assms show ?thesis
    by (simp add: newNodesLoop.simps[of att f] case_prod_beta)
qed

text \<open>
  The order of the loop as a function of the shadow document alone, without the
  removal of classes: a first-in first-out queue of references; a reference whose
  element is tagged new is listed and its children are put at the end of the queue, the
  last child first. \<open>subtreeSize\<close> and \<open>weightAt\<close> measure the queue for termination.
\<close>

fun subtreeSize :: "snode \<Rightarrow> nat" where
  "subtreeSize (SNode a ks) = Suc (sum_list (map subtreeSize ks))"

definition weightAt :: "snode list \<Rightarrow> path \<Rightarrow> nat" where
  "weightAt f p = (case get_at f p of None \<Rightarrow> 0 | Some n \<Rightarrow> subtreeSize n)"

lemma weightAt_kids:
  assumes "get_at f x = Some n"
  shows "sum_list (map (weightAt f) (kidPaths f x)) = sum_list (map subtreeSize (childNodes n))"
proof -
  have k: "kidPaths f x = map (\<lambda>i. x @ [i]) [0..<length (childNodes n)]"
    by (simp add: kidPaths_def assms)
  have w: "weightAt f (x @ [i]) = subtreeSize (childNodes n ! i)"
    if "i < length (childNodes n)" for i
    unfolding weightAt_def get_at_snoc[OF assms] using that by (simp add: nth_opt_def)
  have "map (weightAt f) (kidPaths f x)
        = map (\<lambda>i. subtreeSize (childNodes n ! i)) [0..<length (childNodes n)]"
    unfolding k by (simp add: w)
  also have "\<dots> = map subtreeSize (childNodes n)"
    by (rule nth_equalityI) simp_all
  finally show ?thesis by simp
qed

lemma weightAt_kids_less:
  assumes "hasClass f (Some x) c"
  shows "sum_list (map (weightAt f) (kidPaths f x)) < weightAt f x"
proof -
  from assms obtain n where n: "get_at f x = Some n"
    using hasClass_valid by blast
  then show ?thesis
    using weightAt_kids[OF n] by (cases n) (simp add: weightAt_def)
qed

function queueOrder :: "snode list \<Rightarrow> path list \<Rightarrow> path list" where
  "queueOrder f [] = []"
| "queueOrder f (x # q) =
     (if hasClass f (Some x) NewNodeClassName
      then x # queueOrder f (q @ rev (kidPaths f x))
      else queueOrder f q)"
  by pat_completeness auto
termination
  by (relation "measures [\<lambda>(f, q). sum_list (map (weightAt f) q), \<lambda>(f, q). length q]")
     (auto simp: rev_map[symmetric] dest: weightAt_kids_less)

definition indep :: "path list \<Rightarrow> bool" where
  "indep q \<longleftrightarrow> distinct q \<and> (\<forall>x\<in>set q. \<forall>y\<in>set q. prefix x y \<longrightarrow> x = y)"

lemma in_kidPaths: "y \<in> set (kidPaths f n) \<Longrightarrow> \<exists>i. y = n @ [i]"
  by (auto simp: kidPaths_def split: option.splits)

lemma distinct_kidPaths: "distinct (kidPaths f n)"
  by (auto simp: kidPaths_def distinct_map inj_on_def split: option.splits)

lemma indep_step:
  assumes "indep (n # q)"
  shows "indep (q @ rev (kidPaths f n))"
proof -
  from assms have d: "distinct q" and nq: "n \<notin> set q"
    and a: "\<And>x y. x \<in> set (n # q) \<Longrightarrow> y \<in> set (n # q) \<Longrightarrow> prefix x y \<Longrightarrow> x = y"
    by (auto simp: indep_def)
  have k: "\<not> prefix x n \<and> \<not> prefix n x" if "x \<in> set q" for x
    using a[of x n] a[of n x] that nq by auto
  have 1: "distinct (q @ rev (kidPaths f n))"
  proof -
    have "set q \<inter> set (kidPaths f n) = {}"
    proof (rule ccontr)
      assume "set q \<inter> set (kidPaths f n) \<noteq> {}"
      then obtain y where y: "y \<in> set q" "y \<in> set (kidPaths f n)" by auto
      from in_kidPaths[OF y(2)] have "prefix n y" by auto
      with k[OF y(1)] show False by simp
    qed
    with d distinct_kidPaths[of f n] show ?thesis by simp
  qed
  have 2: "x = y" if x: "x \<in> set (q @ rev (kidPaths f n))"
    and y: "y \<in> set (q @ rev (kidPaths f n))" and p: "prefix x y" for x y
  proof -
    consider "x \<in> set q" "y \<in> set q" | "x \<in> set q" "y \<in> set (kidPaths f n)"
      | "x \<in> set (kidPaths f n)" "y \<in> set q"
      | "x \<in> set (kidPaths f n)" "y \<in> set (kidPaths f n)"
      using x y by auto
    then show ?thesis
    proof cases
      case 1
      with a p show ?thesis by simp
    next
      case 2
      from in_kidPaths[OF 2(2)] obtain i where i: "y = n @ [i]" by auto
      with p have "x = n @ [i] \<or> prefix x n" by auto
      with k[OF 2(1)] i show ?thesis by auto
    next
      case 3
      from in_kidPaths[OF 3(1)] obtain i where "x = n @ [i]" by auto
      with p have "prefix n y" by (metis prefix_order.dual_order.trans prefixI)
      with k[OF 3(2)] show ?thesis by simp
    next
      case 4
      from in_kidPaths[OF 4(1)] in_kidPaths[OF 4(2)] obtain i j where
        "x = n @ [i]" "y = n @ [j]" by auto
      with p show ?thesis by auto
    qed
  qed
  from 1 2 show ?thesis unfolding indep_def by blast
qed

lemma queueOrder_cong:
  "(\<forall>p. kidPaths g p = kidPaths f p) \<Longrightarrow>
   (\<forall>x\<in>set q. \<forall>p. prefix x p \<longrightarrow>
            hasClass g (Some p) NewNodeClassName = hasClass f (Some p) NewNodeClassName)
   \<Longrightarrow> queueOrder g q = queueOrder f q"
proof (induction f q rule: queueOrder.induct)
  case (1 f)
  then show ?case by simp
next
  case (2 f x q)
  note k = "2.prems"(1)
  from "2.prems"(2) have hx: "hasClass g (Some x) NewNodeClassName
                              = hasClass f (Some x) NewNodeClassName"
    by simp
  show ?case
  proof (cases "hasClass f (Some x) NewNodeClassName")
    case True
    have "\<forall>y\<in>set (q @ rev (kidPaths f x)). \<forall>p. prefix y p \<longrightarrow>
            hasClass g (Some p) NewNodeClassName = hasClass f (Some p) NewNodeClassName"
    proof (intro ballI allI impI)
      fix y p
      assume y: "y \<in> set (q @ rev (kidPaths f x))" and p: "prefix y p"
      show "hasClass g (Some p) NewNodeClassName = hasClass f (Some p) NewNodeClassName"
      proof (cases "y \<in> set q")
        case True
        with "2.prems"(2) p show ?thesis by simp
      next
        case False
        with y have "y \<in> set (kidPaths f x)" by simp
        from in_kidPaths[OF this] p have "prefix x p"
          by (metis prefix_order.dual_order.trans prefixI)
        with "2.prems"(2) show ?thesis by simp
      qed
    qed
    from "2.IH"(1)[OF True k this] True hx k show ?thesis by simp
  next
    case False
    from "2.prems"(2) have "\<forall>y\<in>set q. \<forall>p. prefix y p \<longrightarrow>
            hasClass g (Some p) NewNodeClassName = hasClass f (Some p) NewNodeClassName"
      by simp
    from "2.IH"(2)[OF False k this] False hx show ?thesis by simp
  qed
qed

lemma discoverQueueLoop_queueOrder:
  "indep q \<Longrightarrow>
   snd (discoverQueueLoop q f out) = out @ queueOrder f q
   \<and> (\<forall>p c. hasClass (fst (discoverQueueLoop q f out)) (Some p) c
        = (hasClass f (Some p) c \<and> \<not> (c = NewNodeClassName \<and> p \<in> set (queueOrder f q))))
   \<and> (\<forall>p. kidPaths (fst (discoverQueueLoop q f out)) p = kidPaths f p)"
proof (induction q f out rule: discoverQueueLoop.induct)
  case (1 f out)
  then show ?case by simp
next
  case (2 n q f out)
  show ?case
  proof (cases "hasClass f (Some n) NewNodeClassName")
    case True
    let ?f1 = "removeClass (Some n) NewNodeClassName f"
    let ?q1 = "q @ rev (kidPaths f n)"
    from "2.prems" have i1: "indep ?q1" by (rule indep_step)
    from "2.prems" have nq: "n \<notin> set q"
      and a: "\<And>x. x \<in> set q \<Longrightarrow> prefix x n \<Longrightarrow> x = n"
      by (auto simp: indep_def)
    have same: "queueOrder ?f1 ?q1 = queueOrder f ?q1"
    proof (rule queueOrder_cong)
      show "\<forall>p. kidPaths ?f1 p = kidPaths f p" by simp
      show "\<forall>x\<in>set ?q1. \<forall>p. prefix x p \<longrightarrow>
              hasClass ?f1 (Some p) NewNodeClassName = hasClass f (Some p) NewNodeClassName"
      proof (intro ballI allI impI)
        fix x p
        assume x: "x \<in> set ?q1" and p: "prefix x p"
        have "p \<noteq> n"
        proof
          assume "p = n"
          with p have xn: "prefix x n" by simp
          show False
          proof (cases "x \<in> set q")
            case True
            with a xn nq show False by auto
          next
            case False
            with x have "x \<in> set (kidPaths f n)" by simp
            from in_kidPaths[OF this] xn show False by auto
          qed
        qed
        then show "hasClass ?f1 (Some p) NewNodeClassName = hasClass f (Some p) NewNodeClassName"
          by (simp add: hasClass_removeClass)
      qed
    qed
    from "2.IH"(1)[OF True i1] same True show ?thesis
      by (auto simp: hasClass_removeClass)
  next
    case False
    from "2.prems" have "indep q" by (auto simp: indep_def)
    from "2.IH"(2)[OF False this] False show ?thesis by simp
  qed
qed

text \<open>
  The elements from which the traversals start: those tagged new whose parent is not
  tagged new, in document order.
\<close>

definition newTops :: "bool \<Rightarrow> snode list \<Rightarrow> path list" where
  "newTops att f =
     filter (\<lambda>p. hasClass f (Some p) NewNodeClassName
                \<and> \<not> hasClass f (Some (butlast p)) NewNodeClassName)
       (docPaths att f)"

lemma queueOrder_new:
  "p \<in> set (queueOrder f q) \<Longrightarrow> hasClass f (Some p) NewNodeClassName"
  by (induction f q rule: queueOrder.induct) (auto split: if_splits)

lemma queueOrder_origin:
  "p \<in> set (queueOrder f q) \<Longrightarrow>
   p \<in> set q \<or> (\<exists>x\<in>set (queueOrder f q). p \<in> set (kidPaths f x))"
proof (induction f q rule: queueOrder.induct)
  case (1 f)
  then show ?case by simp
next
  case (2 f x q)
  show ?case
  proof (cases "hasClass f (Some x) NewNodeClassName")
    case True
    show ?thesis
    proof (cases "p = x")
      case True
      then show ?thesis by simp
    next
      case False
      with "2.prems" True have "p \<in> set (queueOrder f (q @ rev (kidPaths f x)))" by simp
      from "2.IH"(1)[OF True this] True show ?thesis by auto
    qed
  next
    case False
    with "2.prems" have "p \<in> set (queueOrder f q)" by simp
    from "2.IH"(2)[OF False this] False show ?thesis by auto
  qed
qed

lemma queueOrder_in_queue:
  "y \<in> set q \<Longrightarrow> hasClass f (Some y) NewNodeClassName \<Longrightarrow> y \<in> set (queueOrder f q)"
  by (induction f q rule: queueOrder.induct) auto

lemma queueOrder_closed:
  "x \<in> set (queueOrder f q) \<Longrightarrow> c \<in> set (kidPaths f x) \<Longrightarrow>
   hasClass f (Some c) NewNodeClassName \<Longrightarrow> c \<in> set (queueOrder f q)"
proof (induction f q rule: queueOrder.induct)
  case (1 f)
  then show ?case by simp
next
  case (2 f y q)
  show ?case
  proof (cases "hasClass f (Some y) NewNodeClassName")
    case True
    show ?thesis
    proof (cases "x = y")
      case xy: True
      with "2.prems"(2) have "c \<in> set (q @ rev (kidPaths f y))" by simp
      from queueOrder_in_queue[OF this "2.prems"(3)] True show ?thesis by simp
    next
      case False
      with "2.prems"(1) True have "x \<in> set (queueOrder f (q @ rev (kidPaths f y)))" by simp
      from "2.IH"(1)[OF True this "2.prems"(2,3)] True show ?thesis by simp
    qed
  next
    case False
    with "2.prems"(1) have "x \<in> set (queueOrder f q)" by simp
    from "2.IH"(2)[OF False this "2.prems"(2,3)] False show ?thesis by simp
  qed
qed

lemma queueOrder_between:
  "p \<in> set (queueOrder f [t]) \<Longrightarrow>
   prefix t p \<and> (\<forall>a. prefix t a \<and> prefix a p \<longrightarrow> a \<in> set (queueOrder f [t]))"
proof (induction "length p" arbitrary: p rule: less_induct)
  case less
  from queueOrder_origin[OF less.prems] show ?case
  proof
    assume "p \<in> set [t]"
    then have pt: "p = t" by simp
    have "a = t" if "prefix t a" "prefix a t" for a
      using that by (rule prefix_order.antisym[rotated])
    with less.prems pt show ?thesis by blast
  next
    assume "\<exists>x\<in>set (queueOrder f [t]). p \<in> set (kidPaths f x)"
    then obtain x where x: "x \<in> set (queueOrder f [t])" and k: "p \<in> set (kidPaths f x)"
      by auto
    from in_kidPaths[OF k] obtain i where p: "p = x @ [i]" by auto
    then have "length x < length p" by simp
    from less.hyps[OF this x] have tx: "prefix t x"
      and b: "\<And>a. prefix t a \<Longrightarrow> prefix a x \<Longrightarrow> a \<in> set (queueOrder f [t])"
      by auto
    have "prefix t p" using tx p by (metis prefix_order.trans prefixI)
    moreover have "a \<in> set (queueOrder f [t])" if "prefix t a" "prefix a p" for a
    proof -
      from that(2) p have "a = p \<or> prefix a x" by auto
      with less.prems b[OF that(1)] show ?thesis by blast
    qed
    ultimately show ?thesis by blast
  qed
qed

lemma kid_of_parent:
  assumes "get_at f p \<noteq> None" and "get_at f (butlast p) \<noteq> None"
  shows "p \<in> set (kidPaths f (butlast p))"
proof -
  from assms(1) have ne: "p \<noteq> []" by auto
  then have p: "p = butlast p @ [last p]" by simp
  from assms(2) obtain x where x: "get_at f (butlast p) = Some x" by auto
  from get_at_snoc[OF x, of "last p"] p assms(1) have "last p < length (childNodes x)"
    by (auto simp: nth_opt_def split: if_splits)
  with x p show ?thesis
    by (auto simp: kidPaths_def intro!: image_eqI[where x = "last p"])
qed

lemma newNodesLoop_step_tops:
  assumes b: "getElementsByClassName att f NewNodeClassName = t # r"
    and h': "\<And>p c. hasClass f' (Some p) c
              = (hasClass f (Some p) c
                 \<and> \<not> (c = NewNodeClassName \<and> p \<in> set (queueOrder f [t])))"
    and k': "\<And>p. kidPaths f' p = kidPaths f p"
    and d': "docPaths att f' = docPaths att f"
  shows "newTops att f = t # newTops att f'"
    and "\<forall>t'\<in>set (newTops att f'). queueOrder f' [t'] = queueOrder f [t']"
proof -
  let ?V = "set (queueOrder f [t])"
  let ?N = "\<lambda>g p. hasClass g (Some p) NewNodeClassName"
  let ?top = "\<lambda>g p. ?N g p \<and> \<not> ?N g (butlast p)"
  have nt: "?N f t" using b by (rule byClass_hd_hasClass)
  have ac: "anc_clear f t" using b by (rule byClass_hd_anc_clear)
  have tV: "t \<in> ?V" using nt by (simp add: queueOrder_in_queue)
  from nt have tne: "t \<noteq> []" using hasClass_valid by fastforce
  then have "strict_prefix (butlast t) t"
    by (metis append_butlast_last_id not_Cons_self2 prefixI strict_prefix_def
        append.right_neutral same_append_eq)
  with ac have topt: "?top f t" using nt by (simp add: anc_clear_def)
  from b obtain us vs where dp: "docPaths att f = us @ t # vs"
    and us: "\<forall>u\<in>set us. \<not> ?N f u"
    unfolding getElementsByClassName_def by (auto simp: filter_eq_Cons_iff)
  have dist: "distinct (us @ t # vs)"
    using distinct_docPaths[of att f] dp by simp
  have eqv: "?top f' p = ?top f p" if pv: "p \<in> set vs" for p
  proof -
    from pv dist have pt: "p \<noteq> t" by auto
    from pv dp have "p \<in> set (docPaths att f)" by simp
    then have valid: "get_at f p \<noteq> None" by (simp add: in_docPaths)
    have notV: "p \<notin> ?V" if "\<not> ?N f (butlast p)"
    proof
      assume "p \<in> ?V"
      from queueOrder_origin[OF this] pt obtain x where
        x: "x \<in> ?V" and kx: "p \<in> set (kidPaths f x)" by auto
      from in_kidPaths[OF kx] have "butlast p = x" by auto
      with queueOrder_new[OF x] that show False by simp
    qed
    have inV: "p \<in> ?V" if "?N f p" and "?N f (butlast p)" and "butlast p \<in> ?V"
    proof -
      from that(2) have "get_at f (butlast p) \<noteq> None" by (rule hasClass_valid)
      from kid_of_parent[OF valid this] have "p \<in> set (kidPaths f (butlast p))" .
      from queueOrder_closed[OF that(3) this that(1)] show ?thesis .
    qed
    show ?thesis
      unfolding h' using notV inV by auto
  qed
  have 1: "newTops att f = t # filter (?top f) vs"
    unfolding newTops_def dp using us topt by (simp add: filter_empty_conv)
  have 2: "newTops att f' = filter (?top f) vs"
  proof -
    have "filter (?top f') us = []"
      using us by (auto simp: filter_empty_conv h')
    moreover have "\<not> ?top f' t"
      using tV by (simp add: h')
    moreover have "filter (?top f') vs = filter (?top f) vs"
      by (rule filter_cong) (simp_all add: eqv)
    ultimately show ?thesis
      unfolding newTops_def d' dp by simp
  qed
  from 1 2 show "newTops att f = t # newTops att f'" by simp
  show "\<forall>t'\<in>set (newTops att f'). queueOrder f' [t'] = queueOrder f [t']"
  proof
    fix t'
    assume "t' \<in> set (newTops att f')"
    then have n': "?N f' t'" by (simp add: newTops_def)
    then have nf: "?N f t'" and t'V: "t' \<notin> ?V" by (simp_all add: h')
    show "queueOrder f' [t'] = queueOrder f [t']"
    proof (rule queueOrder_cong)
      show "\<forall>p. kidPaths f' p = kidPaths f p" by (simp add: k')
      show "\<forall>x\<in>set [t']. \<forall>p. prefix x p \<longrightarrow> ?N f' p = ?N f p"
      proof (intro ballI allI impI)
        fix x p
        assume "x \<in> set [t']" and xp: "prefix x p"
        then have tp: "prefix t' p" by simp
        have "p \<notin> ?V"
        proof
          assume pV: "p \<in> ?V"
          from queueOrder_between[OF pV] have ttp: "prefix t p"
            and btw: "\<And>a. prefix t a \<Longrightarrow> prefix a p \<Longrightarrow> a \<in> ?V"
            by auto
          from prefix_same_cases[OF ttp tp] show False
          proof
            assume "prefix t t'"
            from btw[OF this tp] t'V show False by simp
          next
            assume "prefix t' t"
            moreover have "t' \<noteq> t" using t'V tV by auto
            ultimately have "strict_prefix t' t" by (simp add: strict_prefix_def)
            with ac nf show False by (simp add: anc_clear_def)
          qed
        qed
        then show "?N f' p = ?N f p" by (simp add: h')
      qed
    qed
  qed
qed

lemma newNodesLoop_queueOrder:
  "snd (newNodesLoop att f out)
   = out @ concat (map (\<lambda>t. queueOrder f [t]) (newTops att f))"
proof (induction att f out rule: newNodesLoop.induct)
  case (1 att f out)
  show ?case
  proof (cases "getElementsByClassName att f NewNodeClassName")
    case Nil
    then have "newTops att f = []"
      by (auto simp: newTops_def getElementsByClassName_def filter_empty_conv)
    with Nil show ?thesis by (simp add: newNodesLoop.simps[of att f])
  next
    case (Cons t r)
    obtain f' out' where d: "discoverQueueLoop [t] f out = (f', out')"
      by (cases "discoverQueueLoop [t] f out")
    have "indep [t]" by (simp add: indep_def)
    from discoverQueueLoop_queueOrder[OF this, of f out] d have
      o: "out' = out @ queueOrder f [t]"
      and h': "\<And>p c. hasClass f' (Some p) c
              = (hasClass f (Some p) c
                 \<and> \<not> (c = NewNodeClassName \<and> p \<in> set (queueOrder f [t])))"
      and k': "\<And>p. kidPaths f' p = kidPaths f p"
      by simp_all
    have d': "docPaths att f' = docPaths att f"
      using discoverQueueLoop_docPaths[of att "[t]" f out] d by simp
    note s = newNodesLoop_step_tops[OF Cons h' k' d']
    have m: "map (\<lambda>t. queueOrder f' [t]) (newTops att f')
          = map (\<lambda>t. queueOrder f [t]) (newTops att f')"
      by (rule map_cong[OF refl]) (use s(2) in blast)
    have e: "newNodesLoop att f out = newNodesLoop att f' out'"
      using Cons d by (simp del: discoverQueueLoop.simps add: newNodesLoop.simps[of att f])
    from "1.IH"[OF Cons d[symmetric]]
    have "snd (newNodesLoop att f out)
          = out' @ concat (map (\<lambda>t. queueOrder f' [t]) (newTops att f'))"
      unfolding e .
    then show ?thesis
      unfolding m o s(1) by (simp del: queueOrder.simps)
  qed
qed

lemma queueOrder_append:
  "queueOrder f (q @ r)
   = filter (\<lambda>x. hasClass f (Some x) NewNodeClassName) q
     @ queueOrder f
         (r @ concat (map (\<lambda>x. rev (kidPaths f x))
                        (filter (\<lambda>x. hasClass f (Some x) NewNodeClassName) q)))"
proof (induction q arbitrary: r)
  case Nil
  then show ?case by simp
next
  case (Cons x q)
  show ?case
  proof (cases "hasClass f (Some x) NewNodeClassName")
    case True
    from Cons[of "r @ rev (kidPaths f x)"] True show ?thesis by simp
  next
    case False
    from Cons[of r] False show ?thesis by simp
  qed
qed

lemma queueOrder_levels:
  "queueOrder f q
   = filter (\<lambda>x. hasClass f (Some x) NewNodeClassName) q
     @ queueOrder f
         (concat (map (\<lambda>x. rev (kidPaths f x))
                    (filter (\<lambda>x. hasClass f (Some x) NewNodeClassName) q)))"
  using queueOrder_append[of f q "[]"] by simp

text \<open>
  The order the specification describes, for comparison: from each top node in turn, a
  depth-first traversal that visits children left to right and lists the nodes tagged
  new.
\<close>

fun spec_newOrder :: "path \<Rightarrow> snode \<Rightarrow> path list"
and spec_newOrder_kids :: "path \<Rightarrow> nat \<Rightarrow> snode list \<Rightarrow> path list" where
  "spec_newOrder p (SNode a ks) =
     (if NewNodeClassName \<in> set (classList a) then [p] else []) @ spec_newOrder_kids p 0 ks"
| "spec_newOrder_kids p i [] = []"
| "spec_newOrder_kids p i (k # ks) = spec_newOrder (p @ [i]) k @ spec_newOrder_kids p (Suc i) ks"

definition spec_newNodes :: "snode list \<Rightarrow> path list \<Rightarrow> path list" where
  "spec_newNodes f tops =
     concat (map (\<lambda>t. case get_at f t of None \<Rightarrow> [] | Some n \<Rightarrow> spec_newOrder t n) tops)"

text \<open>
  A page \<open>body > [K, D]\<close> with a new element \<open>D > [A > [A1], B]\<close>, inserted by one
  record, and the state the records leave for \<open>getMutationSummary\<close>.
\<close>

definition liveD :: lnode where
  "liveD = LNode 10 [LNode 11 [LNode 13 []], LNode 12 []]"

definition subtreeTagged :: ShadowDom where
  "subtreeTagged =
     (projr (applyMutations [childListRecord (LNode 1 [liveK, liveD]) [liveD] [] (Some liveK) None]
               (syncState\<lparr>attached := True, classifyNodes := True\<rparr>)))
       \<lparr>attached := False\<rparr>"

text \<open>
  C3 (as the code has it). \<open>newNodes\<close> is the queue order of the shadow document as
  the summary finds it: for each element tagged new whose parent is not tagged new, in
  document order, the traversal \<open>queueOrder\<close> from that element, which lists the tagged
  elements of the queue in turn and puts the children of each at the end of the queue,
  the last child first; so the tagged elements of one queue come first, in the order of
  the queue, and then those among their children, each parent's children last to first
  (the level equation). The list holds exactly the elements of the document that are
  tagged new, each once. A listed node comes after every listed ancestor of it, so
  parents precede their descendants. The first node listed is the first element in
  document order that is tagged new. Listing a node removes its class new and nothing
  else: the class top-new stays on every node that is not reported as moved or updated.
\<close>

theorem newNodes_ancestors_first:
  "newNodes (fst (getMutationSummary s))
     = concat (map (\<lambda>t. queueOrder (docKids s) [t]) (newTops (attached s) (docKids s)))
   \<and> (\<forall>q. queueOrder (docKids s) q
          = filter (\<lambda>x. hasClass (docKids s) (Some x) NewNodeClassName) q
            @ queueOrder (docKids s)
                (concat (map (\<lambda>x. rev (kidPaths (docKids s) x))
                           (filter (\<lambda>x. hasClass (docKids s) (Some x) NewNodeClassName) q))))
   \<and> set (newNodes (fst (getMutationSummary s)))
     = set (getElementsByClassName (attached s) (docKids s) NewNodeClassName)
   \<and> distinct (newNodes (fst (getMutationSummary s)))
   \<and> (\<forall>i a. i < length (newNodes (fst (getMutationSummary s)))
            \<and> strict_prefix a (newNodes (fst (getMutationSummary s)) ! i)
            \<and> a \<in> set (newNodes (fst (getMutationSummary s)))
          \<longrightarrow> a \<in> set (take i (newNodes (fst (getMutationSummary s)))))
   \<and> (\<forall>t r. getElementsByClassName (attached s) (docKids s) NewNodeClassName = t # r
          \<longrightarrow> hd (newNodes (fst (getMutationSummary s))) = t)
   \<and> (\<forall>p c. hasClass (docKids (snd (getMutationSummary s))) (Some p) TopNewNodeClassName
            = (hasClass (docKids s) (Some p) TopNewNodeClassName
               \<and> p \<notin> set (movedNodes (fst (getMutationSummary s)))
               \<and> p \<notin> set (updatedNodes (fst (getMutationSummary s)))))
   \<and> (\<forall>p. p \<in> set (newNodes (fst (getMutationSummary s)))
          \<longrightarrow> \<not> hasClass (docKids (snd (getMutationSummary s))) (Some p) NewNodeClassName)"
proof -
  let ?L = "newNodes (fst (getMutationSummary s))"
  have L: "?L = snd (newNodesLoop (attached s) (docKids s) [])"
    by (rule summary_new)
  note inv = newNodesLoop_result(1)[of "docKids s" "attached s", unfolded newInv_def, folded L]
  have 1: "set ?L = set (getElementsByClassName (attached s) (docKids s) NewNodeClassName)"
    unfolding L by (rule newNodes_set)
  have 2: "distinct ?L"
    using inv by blast
  have 3: "\<forall>i a. i < length ?L \<and> strict_prefix a (?L ! i) \<and> a \<in> set ?L \<longrightarrow> a \<in> set (take i ?L)"
    using inv by blast
  have 4: "\<forall>t r. getElementsByClassName (attached s) (docKids s) NewNodeClassName = t # r
          \<longrightarrow> hd ?L = t"
    unfolding L using newNodesLoop_hd by fastforce
  have 5: "\<forall>p c. hasClass (docKids (snd (getMutationSummary s))) (Some p) TopNewNodeClassName
            = (hasClass (docKids s) (Some p) TopNewNodeClassName
               \<and> p \<notin> set (movedNodes (fst (getMutationSummary s)))
               \<and> p \<notin> set (updatedNodes (fst (getMutationSummary s))))"
    by (simp add: summary_classes)
  have 6: "\<forall>p. p \<in> set ?L
          \<longrightarrow> \<not> hasClass (docKids (snd (getMutationSummary s))) (Some p) NewNodeClassName"
    by (simp add: summary_classes)
  have 7: "?L = concat (map (\<lambda>t. queueOrder (docKids s) [t])
                          (newTops (attached s) (docKids s)))"
    unfolding L using newNodesLoop_queueOrder[of "attached s" "docKids s" "[]"]
    by (simp del: queueOrder.simps)
  have 8: "\<forall>q. queueOrder (docKids s) q
          = filter (\<lambda>x. hasClass (docKids s) (Some x) NewNodeClassName) q
            @ queueOrder (docKids s)
                (concat (map (\<lambda>x. rev (kidPaths (docKids s) x))
                           (filter (\<lambda>x. hasClass (docKids s) (Some x) NewNodeClassName) q)))"
    using queueOrder_levels by blast
  show ?thesis
    apply (intro conjI)
           apply (rule 7)
          apply (rule 8)
         apply (rule 1)
        apply (rule 2)
       apply (rule 3)
      apply (rule 4)
     apply (rule 5)
    apply (rule 6)
    done
qed

theorem newNodes_ancestors_first_witness:
  "newNodes (fst (getMutationSummary subtreeTagged))
     = [[0, 0, 0, 1], [0, 0, 0, 1, 1], [0, 0, 0, 1, 0], [0, 0, 0, 1, 0, 0]]
   \<and> distinct (newNodes (fst (getMutationSummary subtreeTagged)))
   \<and> [0, 0, 0, 1] \<in> set (take 2 (newNodes (fst (getMutationSummary subtreeTagged))))
   \<and> \<not> hasClass (docKids (snd (getMutationSummary subtreeTagged))) (Some [0, 0, 0, 1, 0])
         NewNodeClassName
   \<and> newTops (attached subtreeTagged) (docKids subtreeTagged) = [[0, 0, 0, 1]]
   \<and> queueOrder (docKids subtreeTagged) [[0, 0, 0, 1]]
     = [[0, 0, 0, 1], [0, 0, 0, 1, 1], [0, 0, 0, 1, 0], [0, 0, 0, 1, 0, 0]]"
proof -
  let ?L = "newNodes (fst (getMutationSummary subtreeTagged))"
  have a: "?L = [[0, 0, 0, 1], [0, 0, 0, 1, 1], [0, 0, 0, 1, 0], [0, 0, 0, 1, 0, 0]]"
    by code_simp
  have b: "strict_prefix [0, 0, 0, 1] (?L ! 2)"
    unfolding a by (simp add: strict_prefix_def)
  have i: "2 < length ?L" and m: "[0, 0, 0, 1] \<in> set ?L" and m': "[0, 0, 0, 1, 0] \<in> set ?L"
    unfolding a by simp_all
  note t = newNodes_ancestors_first[of subtreeTagged]
  from t have d: "distinct ?L"
    by (elim conjE)
  from t have "\<forall>i a. i < length ?L \<and> strict_prefix a (?L ! i) \<and> a \<in> set ?L
      \<longrightarrow> a \<in> set (take i ?L)"
    by (elim conjE)
  with i b m have o: "[0, 0, 0, 1] \<in> set (take 2 ?L)"
    by blast
  from t have "\<forall>p. p \<in> set ?L
      \<longrightarrow> \<not> hasClass (docKids (snd (getMutationSummary subtreeTagged))) (Some p)
            NewNodeClassName"
    by (elim conjE)
  with m' have c: "\<not> hasClass (docKids (snd (getMutationSummary subtreeTagged)))
      (Some [0, 0, 0, 1, 0]) NewNodeClassName"
    by blast
  have n: "newTops (attached subtreeTagged) (docKids subtreeTagged) = [[0, 0, 0, 1]]"
    by code_simp
  from t have "?L = concat (map (\<lambda>t. queueOrder (docKids subtreeTagged) [t])
                             (newTops (attached subtreeTagged) (docKids subtreeTagged)))"
    by (elim conjE)
  then have q: "queueOrder (docKids subtreeTagged) [[0, 0, 0, 1]]
                = [[0, 0, 0, 1], [0, 0, 0, 1, 1], [0, 0, 0, 1, 0], [0, 0, 0, 1, 0, 0]]"
    unfolding n a by (simp del: queueOrder.simps)
  from a d o c n q show ?thesis
    by (intro conjI)
qed

text \<open>
  The claim as stated fails. In the state above the only node tagged top-new is the
  mirror of \<open>D\<close>. The depth-first, left-to-right order lists \<open>D, A, A1, B\<close>; the code
  lists \<open>D, B, A, A1\<close>: the children come last to first, and level by level. In the
  second batch \<open>T\<close> is tagged before the node inserted in front of \<open>K\<close>, and is listed
  after it (the indices listed are 4, 3), as document order has it. The class top-new
  is still on the mirror of \<open>D\<close> after the summary.
\<close>

theorem newNodes_not_depth_first_left_to_right:
  "getElementsByClassName False (docKids subtreeTagged) TopNewNodeClassName = [[0, 0, 0, 1]]
   \<and> spec_newNodes (docKids subtreeTagged) [[0, 0, 0, 1]]
     = [[0, 0, 0, 1], [0, 0, 0, 1, 0], [0, 0, 0, 1, 0, 0], [0, 0, 0, 1, 1]]
   \<and> newNodes (fst (getMutationSummary subtreeTagged))
     = [[0, 0, 0, 1], [0, 0, 0, 1, 1], [0, 0, 0, 1, 0], [0, 0, 0, 1, 0, 0]]
   \<and> hasClass (docKids (snd (getMutationSummary subtreeTagged))) (Some [0, 0, 0, 1])
        TopNewNodeClassName
   \<and> map_sum fst (\<lambda>(summary, s). map (ident_at (docKids s)) (newNodes summary))
        (applyMutationBatch
           [childListRecord (LNode 1 [LNode 4 [], liveK, liveT]) [liveT] [] (Some liveK) None,
            childListRecord (LNode 1 [LNode 4 [], liveK, liveT]) [LNode 4 []] [] None (Some liveK)]
           syncState)
     = Inr [Some 4, Some 3]"
  by code_simp

section \<open>C2: a node inserted and removed in one batch\<close>

text \<open>
  The registry is in order when it is bounded and no two live nodes carry the same
  index. It grows from one state to a later one: the counter does not go down, an
  index once given stays, and an index given in between is at least the earlier
  counter.
\<close>

definition registry_ok :: "ShadowDom \<Rightarrow> bool" where
  "registry_ok s \<longleftrightarrow>
     registry_bounded s
     \<and> (\<forall>n m i. nodeIndex s n = Some i \<and> nodeIndex s m = Some i \<longrightarrow> n = m)"

definition registry_grows :: "ShadowDom \<Rightarrow> ShadowDom \<Rightarrow> bool" where
  "registry_grows s s' \<longleftrightarrow>
     nextIndex s \<le> nextIndex s'
     \<and> (\<forall>n i. nodeIndex s n = Some i \<longrightarrow> nodeIndex s' n = Some i)
     \<and> (\<forall>n i. nodeIndex s' n = Some i \<longrightarrow> nodeIndex s n = Some i \<or> nextIndex s \<le> i)
     \<and> (registry_ok s \<longrightarrow> registry_ok s')"

lemma registry_grows_same:
  "nextIndex s' = nextIndex s \<Longrightarrow> nodeIndex s' = nodeIndex s \<Longrightarrow> registry_grows s s'"
  by (simp add: registry_grows_def registry_ok_def registry_bounded_def)

lemma registry_grows_refl [simp]: "registry_grows s s"
  by (simp add: registry_grows_same)

lemma registry_grows_trans:
  "registry_grows s s1 \<Longrightarrow> registry_grows s1 s2 \<Longrightarrow> registry_grows s s2"
  unfolding registry_grows_def
  by (meson order_trans)

lemma registry_grows_cong:
  "registry_grows s s1 \<Longrightarrow> nextIndex s2 = nextIndex s1 \<Longrightarrow> nodeIndex s2 = nodeIndex s1
   \<Longrightarrow> registry_grows s s2"
  using registry_grows_trans[OF _ registry_grows_same] by blast

lemma registry_grows_setNodeIndex: "registry_grows s (snd (setNodeIndex n s))"
proof (cases "nodeIndex s (lid n)")
  case None
  then show ?thesis
    by (auto simp: setNodeIndex_unknown registry_grows_def registry_ok_def registry_bounded_def
        less_Suc_eq dest: spec)
next
  case (Some i)
  then show ?thesis by (simp add: setNodeIndex_known)
qed

lemma insertShadowNode_registry:
  "insertShadowNode n pidx nidx lay s = Inr (x, s') \<Longrightarrow>
   nextIndex s' = nextIndex (snd (setNodeIndex n s))
   \<and> nodeIndex s' = nodeIndex (snd (setNodeIndex n s))"
  by (auto simp: insertShadowNode_def Let_def case_prod_beta
      split: option.splits sum.splits if_splits)

lemma moveShadowNode_registry:
  "moveShadowNode i pidx nidx s = Inr (x, s') \<Longrightarrow>
   nextIndex s' = nextIndex s \<and> nodeIndex s' = nodeIndex s"
  by (auto simp: moveShadowNode_def Let_def split: option.splits sum.splits if_splits)

lemma updateShadowNode_registry:
  "nextIndex (updateShadowNode i lay s) = nextIndex s
   \<and> nodeIndex (updateShadowNode i lay s) = nodeIndex s"
  by (auto simp: updateShadowNode_def Let_def split: option.splits)

lemma registry_grows_applyInsert:
  "applyInsert a parent previous next force s = Inr s' \<longrightarrow> registry_grows s s'"
  "discoverChildren parent previous cs s = Inr s' \<longrightarrow> registry_grows s s'"
proof (induction a parent previous "next" force s and parent previous cs s
    arbitrary: s' and s' rule: applyInsert_discoverChildren.induct)
  case (1 i ks parent previous nxt force s)
  show ?case
  proof
    assume r: "applyInsert (LNode i ks) parent previous nxt force s = Inr s'"
    show "registry_grows s s'"
    proof (cases "shouldProcessChildListMutation s (LNode i ks) parent \<or> force")
      case False
      with r show ?thesis by (simp add: applyInsert_eq)
    next
      case True
      show ?thesis
      proof (cases "getNodeIndex s (Some (LNode i ks))")
        case None
        from r True None obtain sn s1 where
          ins: "insertShadowNode (LNode i ks) (getNodeIndex s (Some parent))
                  (getNodeIndex s nxt) None s = Inr (sn, s1)"
          and d: "discoverChildren (LNode i ks) None ks
                    (s1\<lparr>docKids := setClass sn FinalClassName (docKids s1)\<rparr>) = Inr s'"
          by (auto simp: applyInsert_eq split: sum.splits)
        have "registry_grows s (s1\<lparr>docKids := setClass sn FinalClassName (docKids s1)\<rparr>)"
          using insertShadowNode_registry[OF ins]
          by (intro registry_grows_cong[OF registry_grows_setNodeIndex[of s "LNode i ks"]]) simp_all
        moreover have "registry_grows (s1\<lparr>docKids := setClass sn FinalClassName (docKids s1)\<rparr>) s'"
          using "1.IH"[OF refl refl refl refl refl True None ins refl] d
          by simp
        ultimately show ?thesis by (rule registry_grows_trans)
      next
        case (Some j)
        from r True Some obtain x where
          "moveShadowNode (Some j) (getNodeIndex s (Some parent)) (getNodeIndex s nxt) s
             = Inr (x, s')"
          by (auto simp: applyInsert_eq split: sum.splits)
        from moveShadowNode_registry[OF this] show ?thesis
          by (simp add: registry_grows_same)
      qed
    qed
  qed
next
  case (2 parent previous s)
  then show ?case by simp
next
  case (3 parent previous c cs s)
  show ?case
  proof
    assume r: "discoverChildren parent previous (c # cs) s = Inr s'"
    then obtain s1 where
      a: "discoverChildren parent (Some c) cs s = Inr s1"
      and b: "applyInsert c parent previous (case cs of [] \<Rightarrow> None | d # x \<Rightarrow> Some d) True s1
              = Inr s'"
      by (auto split: sum.splits)
    from "3.IH"(1) a have "registry_grows s s1" by simp
    moreover from "3.IH"(2)[OF a] b have "registry_grows s1 s'" by simp
    ultimately show "registry_grows s s'" by (rule registry_grows_trans)
  qed
qed

lemma registry_grows_insertAddedNodes:
  "insertAddedNodes target previous added next s = Inr s' \<Longrightarrow> registry_grows s s'"
proof (induction added arbitrary: previous s')
  case Nil
  then show ?case by simp
next
  case (Cons a as)
  from Cons.prems obtain s1 where
    1: "insertAddedNodes target (Some a) as next s = Inr s1"
    and 2: "applyInsert a target previous (case as of [] \<Rightarrow> next | b # x \<Rightarrow> Some b) False s1
            = Inr s'"
    by (auto split: sum.splits)
  from Cons.IH[OF 1] registry_grows_applyInsert(1)[of a target previous _ False s1 s'] 2
  show ?case by (blast intro: registry_grows_trans)
qed

lemma registry_grows_applyRemove:
  "applyRemove r target s = Inr s' \<Longrightarrow> registry_grows s s'"
  by (auto simp: applyRemove_def Let_def registry_grows_same
      dest!: removeShadowNode_registry split: if_splits)

lemma registry_grows_removeRemovedNodes:
  "removeRemovedNodes target rs s = Inr s' \<Longrightarrow> registry_grows s s'"
proof (induction rs arbitrary: s)
  case Nil
  then show ?case by simp
next
  case (Cons r rs)
  from Cons.prems obtain s1 where
    1: "applyRemove r target s = Inr s1" and 2: "removeRemovedNodes target rs s1 = Inr s'"
    by (auto split: sum.splits)
  from registry_grows_applyRemove[OF 1] Cons.IH[OF 2] show ?case
    by (rule registry_grows_trans)
qed

lemma registry_grows_applyUpdate: "registry_grows s (applyUpdate t s)"
  by (simp add: applyUpdate_def Let_def registry_grows_same updateShadowNode_registry)

lemma registry_grows_applyMutation:
  "applyMutation mutation s = Inr s' \<Longrightarrow> registry_grows s s'"
  by (cases "mutType mutation")
     (auto simp: applyMutation_def registry_grows_applyUpdate split: sum.splits
        dest!: registry_grows_insertAddedNodes registry_grows_removeRemovedNodes
        intro: registry_grows_trans)

lemma registry_grows_applyMutations:
  "applyMutations mutations s = Inr s' \<Longrightarrow> registry_grows s s'"
proof (induction mutations arbitrary: s)
  case Nil
  then show ?case by simp
next
  case (Cons m ms)
  from Cons.prems obtain s1 where
    1: "applyMutation m s = Inr s1" and 2: "applyMutations ms s1 = Inr s'"
    by (auto split: sum.splits)
  from registry_grows_applyMutation[OF 1] Cons.IH[OF 2] show ?case
    by (rule registry_grows_trans)
qed

lemma applyMutationBatch_unfold:
  assumes "applyMutationBatch mutations s = Inr (summary, s')"
  obtains s2 where
    "applyMutations mutations (s\<lparr>attached := True, classifyNodes := True\<rparr>) = Inr s2"
    "summary = fst (getMutationSummary (s2\<lparr>attached := False\<rparr>))"
    "s' = (snd (getMutationSummary (s2\<lparr>attached := False\<rparr>)))
            \<lparr>docKids := clearRemovedNodes
                          (finalLoop False
                             (docKids (snd (getMutationSummary (s2\<lparr>attached := False\<rparr>))))),
             classifyNodes := False\<rparr>"
  using assms
  by (auto simp: applyMutationBatch_def Let_def case_prod_beta summary_frame split: sum.splits)

lemma registry_grows_applyMutationBatch:
  assumes "applyMutationBatch mutations s = Inr (summary, s')"
  shows "registry_grows s s'"
proof -
  from assms obtain s2 where
    a: "applyMutations mutations (s\<lparr>attached := True, classifyNodes := True\<rparr>) = Inr s2"
    and s': "s' = (snd (getMutationSummary (s2\<lparr>attached := False\<rparr>)))
            \<lparr>docKids := clearRemovedNodes
                          (finalLoop False
                             (docKids (snd (getMutationSummary (s2\<lparr>attached := False\<rparr>))))),
             classifyNodes := False\<rparr>"
    by (rule applyMutationBatch_unfold)
  have "registry_grows s (s\<lparr>attached := True, classifyNodes := True\<rparr>)"
    by (simp add: registry_grows_same)
  moreover note registry_grows_applyMutations[OF a]
  moreover have "registry_grows s2 s'"
    unfolding s' by (simp add: registry_grows_same summary_frame)
  ultimately show ?thesis
    by (blast intro: registry_grows_trans)
qed

text \<open>Batches delivered one after the other, as the change feed does.\<close>

fun applyBatches :: "MutationRecord list list \<Rightarrow> ShadowDom \<Rightarrow> thrown + ShadowDom" where
  "applyBatches [] s = Inr s"
| "applyBatches (mutations # batches) s =
     (case applyMutationBatch mutations s of
        Inl e \<Rightarrow> Inl e
      | Inr (summary, s1) \<Rightarrow> applyBatches batches s1)"

lemma registry_grows_applyBatches:
  "applyBatches batches s = Inr s' \<Longrightarrow> registry_grows s s'"
proof (induction batches arbitrary: s)
  case Nil
  then show ?case by simp
next
  case (Cons b bs)
  from Cons.prems obtain summary s1 where
    1: "applyMutationBatch b s = Inr (summary, s1)" and 2: "applyBatches bs s1 = Inr s'"
    by (auto split: sum.splits)
  from registry_grows_applyMutationBatch[OF 1] Cons.IH[OF 2] show ?case
    by (rule registry_grows_trans)
qed

text \<open>
  The cancellation law where the removal has been applied. Let the records of a batch
  have been applied, and let the node \<open>x\<close>, which had no index before the batch, have
  the index \<open>i\<close> and a mirror node that lies in the holding area (path \<open>1 # p\<close>) tagged
  new: it was inserted in this batch, and its removal was applied.
  Then the summary lists that mirror node in none of its lists, in particular neither
  in \<open>newNodes\<close> nor in \<open>removedNodes\<close>. Its index was taken from the counter in this
  batch and lies below the counter afterwards; no other node carries it after the
  batch, nor after any later batches, whose new indices start at the counter.
\<close>

theorem cancellation_law:
  assumes ok: "registry_ok s"
    and records: "applyMutations mutations (s\<lparr>attached := True, classifyNodes := True\<rparr>) = Inr s2"
    and first: "nodeIndex s (lid x) = None"
    and indexed: "nodeIndex s2 (lid x) = Some i"
    and held: "ident_at (docKids s2) (1 # p) = Some i"
    and new: "hasClass (docKids s2) (Some (1 # p)) NewNodeClassName"
    and batch: "applyMutationBatch mutations s = Inr (summary, s')"
    and later: "applyBatches batches s' = Inr s''"
  shows "1 # p \<notin> set (newNodes summary) \<and> 1 # p \<notin> set (movedNodes summary)
       \<and> 1 # p \<notin> set (updatedNodes summary) \<and> 1 # p \<notin> set (removedNodes summary)
       \<and> nextIndex s \<le> i \<and> i < nextIndex s' \<and> nextIndex s' \<le> nextIndex s''
       \<and> (\<forall>y. nodeIndex s' y = Some i \<longrightarrow> y = lid x)
       \<and> (\<forall>y. nodeIndex s'' y = Some i \<longrightarrow> y = lid x)"
proof -
  let ?s3 = "s2\<lparr>attached := False\<rparr>"
  from batch records have sm: "summary = fst (getMutationSummary ?s3)"
    and s': "nextIndex s' = nextIndex s2" "nodeIndex s' = nodeIndex s2"
    by (auto elim!: applyMutationBatch_unfold simp: summary_frame)
  have n: "1 # p \<notin> set (newNodes summary)"
    unfolding sm by (simp add: summary_new newNodes_set byClass_iff)
  have m: "1 # p \<notin> set (movedNodes summary)"
    unfolding sm by (simp add: summary_moved byClass_iff)
  have u: "1 # p \<notin> set (updatedNodes summary)"
    unfolding sm by (simp add: summary_updated byClass_iff)
  have "hasClass (docKids (snd (getMutationSummary ?s3))) (Some (1 # p)) NewNodeClassName"
    using n m u new unfolding sm by (simp add: summary_classes)
  then have r: "1 # p \<notin> set (removedNodes summary)"
    unfolding sm by (simp add: getMutationSummary_eq Let_def)
  have g: "registry_grows s s'"
    using registry_grows_applyMutationBatch[OF batch] .
  have g2: "registry_grows s' s''"
    using registry_grows_applyBatches[OF later] .
  have ok': "registry_ok s'" and ok'': "registry_ok s''"
    using g g2 ok by (auto simp: registry_grows_def)
  have i': "nodeIndex s' (lid x) = Some i"
    using indexed s' by simp
  then have i'': "nodeIndex s'' (lid x) = Some i"
    using g2 by (simp add: registry_grows_def)
  have lo: "nextIndex s \<le> i"
  proof -
    from g i' have "nodeIndex s (lid x) = Some i \<or> nextIndex s \<le> i"
      unfolding registry_grows_def by blast
    with first show ?thesis by simp
  qed
  have hi: "i < nextIndex s'"
    using ok' i' by (auto simp: registry_ok_def registry_bounded_def)
  have mono: "nextIndex s' \<le> nextIndex s''"
    using g2 by (simp add: registry_grows_def)
  have u': "\<forall>y. nodeIndex s' y = Some i \<longrightarrow> y = lid x"
    using ok' i' unfolding registry_ok_def by blast
  have u'': "\<forall>y. nodeIndex s'' y = Some i \<longrightarrow> y = lid x"
    using ok'' i'' unfolding registry_ok_def by blast
  from n m u r lo hi mono u' u'' show ?thesis by blast
qed

definition cancelledBatch :: "MutationRecord list" where
  "cancelledBatch =
     [childListRecord (LNode 1 [liveK]) [liveT] [] (Some liveK) None,
      childListRecord (LNode 1 [liveK]) [] [liveT] (Some liveK) None]"

definition laterBatches :: "MutationRecord list list" where
  "laterBatches = [[childListRecord (LNode 1 [liveK, LNode 5 []]) [LNode 5 []] [] (Some liveK) None]]"

lemma registry_ok_syncState: "registry_ok syncState"
  by (auto simp: registry_ok_def registry_bounded_def syncState_def split: if_splits)

theorem cancellation_law_witness:
  "[1, 0] \<notin> set (newNodes (fst (projr (applyMutationBatch cancelledBatch syncState))))
   \<and> [1, 0] \<notin> set (removedNodes (fst (projr (applyMutationBatch cancelledBatch syncState))))
   \<and> fst (projr (applyMutationBatch cancelledBatch syncState))
     = \<lparr>newNodes = [], movedNodes = [], updatedNodes = [], removedNodes = []\<rparr>
   \<and> 3 < nextIndex (snd (projr (applyMutationBatch cancelledBatch syncState)))
   \<and> nodeIndex (projr (applyBatches laterBatches
                          (snd (projr (applyMutationBatch cancelledBatch syncState))))) 5
     = Some 4"
proof -
  let ?r = "applyMutations cancelledBatch (syncState\<lparr>attached := True, classifyNodes := True\<rparr>)"
  let ?b = "applyMutationBatch cancelledBatch syncState"
  let ?l = "applyBatches laterBatches (snd (projr ?b))"
  have "\<not> isl ?r" by code_simp
  then have records: "?r = Inr (projr ?r)" by simp
  have first: "nodeIndex syncState (lid liveT) = None"
    by (simp add: syncState_def liveT_def)
  have indexed: "nodeIndex (projr ?r) (lid liveT) = Some 3" by code_simp
  have held: "ident_at (docKids (projr ?r)) (1 # [0]) = Some 3" by code_simp
  have new: "hasClass (docKids (projr ?r)) (Some (1 # [0])) NewNodeClassName" by code_simp
  have "\<not> isl ?b" by code_simp
  then have batch: "?b = Inr (fst (projr ?b), snd (projr ?b))" by simp
  have "\<not> isl ?l" by code_simp
  then have later: "?l = Inr (projr ?l)" by simp
  have e: "fst (projr ?b) = \<lparr>newNodes = [], movedNodes = [], updatedNodes = [], removedNodes = []\<rparr>"
    by code_simp
  have f: "nodeIndex (projr ?l) 5 = Some 4" by code_simp
  from cancellation_law[OF registry_ok_syncState records first indexed held new batch later] e f
  show ?thesis by simp
qed

text \<open>
  The page script \<open>body.appendChild(X); body.appendChild(T); T.appendChild(X);
  T.removeChild(X)\<close> on the page \<open>document > body > K\<close>, with new elements \<open>X\<close> and \<open>T\<close>
  (\<open>passingNode\<close> and \<open>hostNode\<close>). The observer delivers five records; when they
  arrive the page is \<open>document > body > [K, T]\<close>, \<open>T\<close> is empty and \<open>X\<close> is in no
  document.
\<close>

definition passingNode :: lnode where
  "passingNode = LNode 5 []"

definition hostNode :: lnode where
  "hostNode = LNode 6 []"

definition hostBody :: lnode where
  "hostBody = LNode 1 [liveK, hostNode]"

definition passedThroughBatch :: "MutationRecord list" where
  "passedThroughBatch =
     [childListRecord hostBody [passingNode] [] (Some liveK) None,
      childListRecord hostBody [hostNode] [] (Some passingNode) None,
      childListRecord hostBody [] [passingNode] (Some liveK) (Some hostNode),
      childListRecord hostNode [passingNode] [] None None,
      childListRecord hostNode [] [passingNode] None None]"

text \<open>
  C2 fails on this batch. \<open>X\<close> is first observed in it (it receives the index 3) and
  removed in it. The fourth record, which adds \<open>X\<close> to \<open>T\<close>, is applied although the
  mirror of \<open>T\<close> is final, because the test looks at the present parent of the mirror
  of \<open>X\<close> (the holder); the fifth, which removes \<open>X\<close> from \<open>T\<close>, is quashed because
  that parent is now the final mirror of \<open>T\<close>. The summary lists the mirror of \<open>X\<close> in
  \<open>newNodes\<close> (after that of \<open>T\<close>) and in \<open>movedNodes\<close>, the mirror keeps \<open>X\<close> under
  \<open>T\<close>, and \<open>mirrorsRealDom\<close> returns false.
\<close>

theorem applyMutationBatch_reports_node_inserted_and_removed:
  "map_sum fst (\<lambda>(summary, s). (summary, map (ident_at (docKids s)) (newNodes summary),
                                map (ident_at (docKids s)) (movedNodes summary),
                                nodeIndex s (lid passingNode), nodeIndex syncState (lid passingNode),
                                kidPaths (docKids s) [0, 0, 0, 1]))
     (applyMutationBatch passedThroughBatch syncState)
   = Inr (\<lparr>newNodes = [[0, 0, 0, 1], [0, 0, 0, 1, 0]], movedNodes = [[0, 0, 0, 1, 0]],
           updatedNodes = [], removedNodes = []\<rparr>,
          [Some 4, Some 3], [Some 3], Some 3, None, [[0, 0, 0, 1, 0]])
   \<and> (case applyMutationBatch passedThroughBatch syncState of
         Inl e \<Rightarrow> Inl (fst e)
       | Inr (summary, s) \<Rightarrow> map_sum id fst (mirrorsRealDom (LNode 0 [hostBody]) s))
     = Inr False"
  by code_simp

section \<open>The mirror under insertion and removal of a node\<close>

lemma get_at_Cons_eq:
  "get_at f (j # r) =
     (if j < length f then (if r = [] then Some (f ! j) else get_at (childNodes (f ! j)) r)
      else None)"
  by (simp add: get_at.simps(2) nth_opt_def)

fun node_all :: "(shadowProps \<Rightarrow> bool) \<Rightarrow> snode \<Rightarrow> bool" where
  "node_all P (SNode a ks) = (P a \<and> (\<forall>k\<in>set ks. node_all P k))"

definition forest_all :: "(shadowProps \<Rightarrow> bool) \<Rightarrow> snode list \<Rightarrow> bool" where
  "forest_all P f = (\<forall>n\<in>set f. node_all P n)"

lemma node_all_iff: "node_all P n \<longleftrightarrow> P (props n) \<and> forest_all P (childNodes n)"
  by (cases n) (simp add: forest_all_def)

lemma node_all_set_kids:
  "node_all P n \<Longrightarrow> forest_all P ks \<Longrightarrow> node_all P (set_kids n ks)"
  by (simp add: node_all_iff)

lemma forest_all_update:
  "forest_all P f \<Longrightarrow> node_all P x \<Longrightarrow> forest_all P (f[j := x])"
  unfolding forest_all_def by (metis insert_iff set_update_subset_insert subsetD)

lemma forest_all_nth: "forest_all P f \<Longrightarrow> j < length f \<Longrightarrow> node_all P (f ! j)"
  by (simp add: forest_all_def)

lemma forest_all_remove_at: "forest_all P f \<Longrightarrow> forest_all P (remove_at a f)"
proof (induction a arbitrary: f)
  case Nil
  then show ?case by simp
next
  case (Cons x a)
  show ?case
  proof (cases "a = []")
    case True
    with Cons.prems show ?thesis
      by (auto simp: forest_all_def dest: in_set_takeD in_set_dropD)
  next
    case False
    show ?thesis
    proof (cases "x < length f")
      case True
      have "node_all P (f ! x)" using Cons.prems True by (rule forest_all_nth)
      then have "forest_all P (remove_at a (childNodes (f ! x)))"
        using Cons.IH by (simp add: node_all_iff)
      with \<open>node_all P (f ! x)\<close> have "node_all P (set_kids (f ! x) (remove_at a (childNodes (f ! x))))"
        by (rule node_all_set_kids)
      with Cons.prems False True show ?thesis by (simp add: forest_all_update)
    next
      case False
      with Cons.prems \<open>a \<noteq> []\<close> show ?thesis by simp
    qed
  qed
qed

lemma forest_all_insert_at:
  "forest_all P f \<Longrightarrow> node_all P n \<Longrightarrow> forest_all P (insert_at b k n f)"
proof (induction b arbitrary: f)
  case Nil
  then show ?case
    by (auto simp: forest_all_def dest: in_set_takeD in_set_dropD)
next
  case (Cons j b)
  show ?case
  proof (cases "j < length f")
    case True
    have nj: "node_all P (f ! j)" using Cons.prems(1) True by (rule forest_all_nth)
    then have "forest_all P (insert_at b k n (childNodes (f ! j)))"
      using Cons.IH Cons.prems(2) by (simp add: node_all_iff)
    with nj have "node_all P (set_kids (f ! j) (insert_at b k n (childNodes (f ! j))))"
      by (rule node_all_set_kids)
    with Cons.prems True show ?thesis by (simp add: forest_all_update)
  next
    case False
    with Cons.prems show ?thesis by simp
  qed
qed

lemma forest_all_get_at: "forest_all P f \<Longrightarrow> get_at f a = Some n \<Longrightarrow> node_all P n"
proof (induction a arbitrary: f)
  case Nil
  then show ?case by simp
next
  case (Cons x a)
  from Cons.prems(2) have x: "x < length f"
    by (simp add: get_at_Cons_eq split: if_splits)
  have nx: "node_all P (f ! x)" using Cons.prems(1) x by (rule forest_all_nth)
  show ?case
  proof (cases "a = []")
    case True
    with Cons.prems(2) x nx show ?thesis by (simp add: get_at_Cons_eq)
  next
    case False
    with Cons.prems(2) x have "get_at (childNodes (f ! x)) a = Some n"
      by (simp add: get_at_Cons_eq)
    moreover have "forest_all P (childNodes (f ! x))"
      using nx by (simp add: node_all_iff)
    ultimately show ?thesis by (rule Cons.IH[rotated])
  qed
qed

lemma forest_all_upd_at:
  "forest_all P f \<Longrightarrow> (\<And>a. P a \<Longrightarrow> P (g a)) \<Longrightarrow> forest_all P (upd_at g p f)"
proof (induction p arbitrary: f)
  case Nil
  then show ?case by simp
next
  case (Cons x p)
  show ?case
  proof (cases "x < length f")
    case True
    have nx: "node_all P (f ! x)" using Cons.prems(1) True by (rule forest_all_nth)
    have "node_all P (map_props g (f ! x))"
      using nx Cons.prems(2) by (simp add: node_all_iff)
    moreover have "node_all P (set_kids (f ! x) (upd_at g p (childNodes (f ! x))))"
      using nx Cons.IH[OF _ Cons.prems(2)] by (simp add: node_all_iff)
    ultimately show ?thesis
      using Cons.prems(1) True by (simp add: forest_all_update)
  next
    case False
    with Cons.prems show ?thesis by simp
  qed
qed

lemma forest_all_props_at:
  "forest_all P f \<Longrightarrow> props_at f p = Some a \<Longrightarrow> P a"
  using forest_all_get_at[of P f p] by (auto simp: props_at_def node_all_iff)

lemma kids_at_Cons:
  "kids_at f (j # b) = (if j < length f then kids_at (childNodes (f ! j)) b else None)"
  by (auto simp: kids_at_def get_at_Cons_eq)

lemma get_at_insert_at_place:
  "kids_at f b = Some ks \<Longrightarrow> k \<le> length ks \<Longrightarrow> get_at (insert_at b k n f) (b @ [k]) = Some n"
proof (induction b arbitrary: f)
  case Nil
  then show ?case
    by (simp add: kids_at_def get_at_Cons_eq nth_append)
next
  case (Cons j b)
  from Cons.prems(1) have j: "j < length f" and ks: "kids_at (childNodes (f ! j)) b = Some ks"
    by (simp_all add: kids_at_Cons split: if_splits)
  from Cons.IH[OF ks Cons.prems(2)] j show ?case
    by (simp add: get_at_Cons_eq)
qed

lemma get_at_insert_at_other_top:
  "i \<noteq> j \<Longrightarrow> get_at (insert_at (j # b) k n f) (i # r) = get_at f (i # r)"
  by (simp add: get_at_Cons_eq)

lemma get_at_remove_at_other_top:
  "i \<noteq> j \<Longrightarrow> a \<noteq> [] \<Longrightarrow> get_at (remove_at (j # a) f) (i # r) = get_at f (i # r)"
  by (simp add: get_at_Cons_eq)

lemma kidPaths_cong: "get_at f p = get_at g p \<Longrightarrow> kidPaths f p = kidPaths g p"
  by (simp add: kidPaths_def)

section \<open>An idle engine attaches no tags\<close>

text \<open>
  Two predicates for stating what the primitives leave alone. \<open>classesWithin C f\<close>: every
  node of the forest carries only classes of \<open>C\<close>. \<open>noTagsAdded s s'\<close>: the engine is
  idle in \<open>s'\<close>, no class occurs in the document of \<open>s'\<close> that did not occur in the
  document of \<open>s\<close>, and the holder of the removed nodes has the children it had.
\<close>

definition classesWithin :: "className set \<Rightarrow> snode list \<Rightarrow> bool" where
  "classesWithin C f = forest_all (\<lambda>a. set (classList a) \<subseteq> C) f"

definition noTagsAdded :: "ShadowDom \<Rightarrow> ShadowDom \<Rightarrow> bool" where
  "noTagsAdded s s' \<longleftrightarrow>
     \<not> classifyNodes s' \<and> \<not> attached s'
     \<and> (\<forall>C. classesWithin C (docKids s) \<longrightarrow> classesWithin C (docKids s'))
     \<and> kidPaths (docKids s') [1] = kidPaths (docKids s) [1]"

lemma getElementById_Some:
  assumes "getElementById att f i = Some a"
  shows "ident_at f a = Some i \<and> get_at f a \<noteq> None \<and> (att \<or> hd a = 0) \<and> a \<noteq> []"
proof -
  from assms obtain k where k: "k < length (docPaths att f)" "a = docPaths att f ! k"
    and i: "ident_at f a = Some i"
    by (auto simp: getElementById_def find_Some_iff)
  from k have "a \<in> set (docPaths att f)" by simp
  then have "get_at f a \<noteq> None \<and> (att \<or> hd a = 0)" by (simp add: in_docPaths)
  moreover from this have "a \<noteq> []" by auto
  ultimately show ?thesis using i by simp
qed

lemma getShadowNode_Some:
  "getShadowNode s idx = Some a \<Longrightarrow>
   (\<exists>i. idx = Some i \<and> ident_at (docKids s) a = Some i) \<and> get_at (docKids s) a \<noteq> None
   \<and> (attached s \<or> hd a = 0) \<and> a \<noteq> []"
  by (cases idx) (auto simp: getShadowNode_def dest: getElementById_Some)

lemma getShadowNode_setNodeIndex [simp]:
  "getShadowNode (snd (setNodeIndex n s)) = getShadowNode s"
  by (rule ext)
     (auto simp: getShadowNode_def setNodeIndex_def getNodeIndex_def split: option.splits)

lemma setNodeIndex_frame [simp]:
  "docKids (snd (setNodeIndex n s)) = docKids s"
  "attached (snd (setNodeIndex n s)) = attached s"
  "classifyNodes (snd (setNodeIndex n s)) = classifyNodes s"
  "nextUid (snd (setNodeIndex n s)) = nextUid s"
  by (auto simp: setNodeIndex_def getNodeIndex_def split: option.splits)

lemma assert_frame [simp]:
  "docKids (assert b x y s) = docKids s" "attached (assert b x y s) = attached s"
  "classifyNodes (assert b x y s) = classifyNodes s"
  by (simp_all add: assert_def)

lemma insertNew_result:
  assumes "insertNew x p nx f = Inr (place, f')"
  shows "\<exists>k. place = p @ [k] \<and> f' = insert_at p k x f
            \<and> ((nx = None \<and> k = (case kids_at f p of None \<Rightarrow> 0 | Some ks \<Rightarrow> length ks))
               \<or> nx = Some (p @ [k]))"
proof (cases nx)
  case None
  with assms show ?thesis by (auto simp: insertNew_def Let_def)
next
  case (Some c)
  with assms have c: "c \<noteq> []" "butlast c = p" "place = c" "f' = insert_at p (last c) x f"
    by (auto simp: insertNew_def split: if_splits)
  then have "c = p @ [last c]" by (metis append_butlast_last_id)
  with c Some show ?thesis by auto
qed

lemma insertShadowNode_no_parent:
  assumes "(if lid n = document_id then Some [0] else getShadowNode s pidx) = None"
    and "insertShadowNode n pidx nidx lay s = Inr (r, s')"
  shows "r = None \<and> docKids s' = docKids s \<and> classifyNodes s' = classifyNodes s
       \<and> attached s' = attached s"
  using assms
  by (auto simp: insertShadowNode_def Let_def case_prod_beta split: if_splits)

lemma insertShadowNode_parent:
  assumes "(if lid n = document_id then Some [0] else getShadowNode s pidx) = Some p"
    and "insertShadowNode n pidx nidx lay s = Inr (r, s')"
  shows "\<exists>a place. insertNew (SNode a []) p (getShadowNode s nidx) (docKids s)
                      = Inr (place, docKids s')
           \<and> r = Some place \<and> ident a = Some (fst (setNodeIndex n s))
           \<and> (\<not> classifyNodes s \<longrightarrow> classList a = [])
           \<and> (classifyNodes s \<longrightarrow> NewNodeClassName \<in> set (classList a))
           \<and> classifyNodes s' = classifyNodes s \<and> attached s' = attached s"
proof -
  from assms(1) have d: "(lid n = document_id \<longrightarrow> p = [0])
      \<and> (lid n \<noteq> document_id \<longrightarrow> getShadowNode s pidx = Some p)"
    by (simp split: if_splits)
  show ?thesis
  proof (cases "lid n = document_id")
    case True
    with d have p: "p = [0]" by simp
    from assms(2) True show ?thesis
      unfolding p
      apply (auto simp: insertShadowNode_def Let_def case_prod_beta assert_def
          split: sum.splits cong: if_cong)
      apply (rule exI)
      apply (rule conjI)
       apply assumption
      apply simp
      done
  next
    case False
    with d have p: "getShadowNode s pidx = Some p" by simp
    from assms(2) False p show ?thesis
      apply (auto simp: insertShadowNode_def Let_def case_prod_beta assert_def
          split: sum.splits cong: if_cong)
      apply (rule exI)
      apply (rule conjI)
       apply assumption
      apply simp
      done
  qed
qed

lemma insertShadowNode_flags:
  assumes "insertShadowNode n pidx nidx lay s = Inr (r, s')"
  shows "classifyNodes s' = classifyNodes s \<and> attached s' = attached s"
proof (cases "if lid n = document_id then Some [0] else getShadowNode s pidx")
  case None
  from insertShadowNode_no_parent[OF None assms] show ?thesis by simp
next
  case (Some p)
  from insertShadowNode_parent[OF Some assms] show ?thesis by blast
qed

lemma moveNode_result:
  assumes "moveNode a p nx f = Inr (place, f')"
  shows "\<exists>n k. get_at f a = Some n \<and> \<not> prefix a p \<and> place = adjust_path a p @ [k]
             \<and> f' = insert_at (adjust_path a p) k n (remove_at a f)"
  using assms
  by (auto simp: moveNode_def Let_def split: option.splits if_splits)

lemma moveShadowNode_result:
  assumes "moveShadowNode index pidx nidx s = Inr (r, s')"
  shows "classifyNodes s' = classifyNodes s \<and> attached s' = attached s
       \<and> ((r = None \<and> docKids s' = docKids s)
          \<or> (\<exists>a p place.
                getShadowNode s index = Some a \<and> getShadowNode s pidx = Some p
              \<and> r = Some place
              \<and> moveNode a p (getShadowNode s nidx)
                   (if classifyNodes s
                    then (let f = setClass (Some a) MovedNodeClassName (docKids s)
                          in if hasClass f (Some p) NewNodeClassName
                             then removeClass (Some a) TopNewNodeClassName f
                             else setClass (Some a) TopNewNodeClassName f)
                    else docKids s)
                 = Inr (place, docKids s')))"
proof (cases "getShadowNode s pidx")
  case None
  with assms show ?thesis
    by (auto simp: moveShadowNode_def Let_def)
next
  case p: (Some p)
  show ?thesis
  proof (cases "getShadowNode s index")
    case None
    with assms p show ?thesis
      by (auto simp: moveShadowNode_def Let_def)
  next
    case (Some a)
    with assms p show ?thesis
      by (auto simp: moveShadowNode_def Let_def assert_def split: sum.splits cong: if_cong)
  qed
qed

lemma updateShadowNode_flags [simp]:
  "classifyNodes (updateShadowNode i lay s) = classifyNodes s"
  "attached (updateShadowNode i lay s) = attached s"
  by (auto simp: updateShadowNode_def Let_def split: option.splits)

lemma removeShadowNode_flags:
  "removeShadowNode i s = Inr s' \<Longrightarrow>
   classifyNodes s' = classifyNodes s \<and> attached s' = attached s"
  by (auto simp: removeShadowNode_def Let_def split: option.splits sum.splits)

lemma flags_applyInsert:
  "applyInsert a parent previous next force s = Inr s' \<longrightarrow>
     classifyNodes s' = classifyNodes s \<and> attached s' = attached s"
  "discoverChildren parent previous cs s = Inr s' \<longrightarrow>
     classifyNodes s' = classifyNodes s \<and> attached s' = attached s"
proof (induction a parent previous "next" force s and parent previous cs s
    arbitrary: s' and s' rule: applyInsert_discoverChildren.induct)
  case (1 i ks parent previous nxt force s)
  show ?case
  proof
    assume r: "applyInsert (LNode i ks) parent previous nxt force s = Inr s'"
    show "classifyNodes s' = classifyNodes s \<and> attached s' = attached s"
    proof (cases "shouldProcessChildListMutation s (LNode i ks) parent \<or> force")
      case False
      with r show ?thesis by (simp add: applyInsert_eq)
    next
      case True
      show ?thesis
      proof (cases "getNodeIndex s (Some (LNode i ks))")
        case None
        from r True None obtain sn s1 where
          ins: "insertShadowNode (LNode i ks) (getNodeIndex s (Some parent))
                  (getNodeIndex s nxt) None s = Inr (sn, s1)"
          and d: "discoverChildren (LNode i ks) None ks
                    (s1\<lparr>docKids := setClass sn FinalClassName (docKids s1)\<rparr>) = Inr s'"
          by (auto simp: applyInsert_eq split: sum.splits)
        from "1.IH"[OF refl refl refl refl refl True None ins refl] d
          insertShadowNode_flags[OF ins]
        show ?thesis by simp
      next
        case (Some j)
        from r True Some obtain x where
          "moveShadowNode (Some j) (getNodeIndex s (Some parent)) (getNodeIndex s nxt) s
             = Inr (x, s')"
          by (auto simp: applyInsert_eq split: sum.splits)
        from moveShadowNode_result[OF this] show ?thesis by blast
      qed
    qed
  qed
next
  case (2 parent previous s)
  then show ?case by simp
next
  case (3 parent previous c cs s)
  show ?case
  proof
    assume r: "discoverChildren parent previous (c # cs) s = Inr s'"
    then obtain s1 where
      a: "discoverChildren parent (Some c) cs s = Inr s1"
      and b: "applyInsert c parent previous (case cs of [] \<Rightarrow> None | d # x \<Rightarrow> Some d) True s1
              = Inr s'"
      by (auto split: sum.splits)
    from "3.IH"(1) a "3.IH"(2)[OF a] b
    show "classifyNodes s' = classifyNodes s \<and> attached s' = attached s" by simp
  qed
qed

lemma flags_insertAddedNodes:
  "insertAddedNodes target previous added next s = Inr s' \<Longrightarrow>
   classifyNodes s' = classifyNodes s \<and> attached s' = attached s"
proof (induction added arbitrary: previous s')
  case Nil
  then show ?case by simp
next
  case (Cons a as)
  from Cons.prems obtain s1 where
    1: "insertAddedNodes target (Some a) as next s = Inr s1"
    and 2: "applyInsert a target previous (case as of [] \<Rightarrow> next | b # x \<Rightarrow> Some b) False s1
            = Inr s'"
    by (auto split: sum.splits)
  from Cons.IH[OF 1] flags_applyInsert(1)[of a target previous _ False s1 s'] 2
  show ?case by simp
qed

lemma flags_removeRemovedNodes:
  "removeRemovedNodes target rs s = Inr s' \<Longrightarrow>
   classifyNodes s' = classifyNodes s \<and> attached s' = attached s"
proof (induction rs arbitrary: s)
  case Nil
  then show ?case by simp
next
  case (Cons r rs)
  from Cons.prems obtain s1 where
    1: "applyRemove r target s = Inr s1" and 2: "removeRemovedNodes target rs s1 = Inr s'"
    by (auto split: sum.splits)
  from 1 have "classifyNodes s1 = classifyNodes s \<and> attached s1 = attached s"
    by (auto simp: applyRemove_def Let_def dest: removeShadowNode_flags split: if_splits)
  with Cons.IH[OF 2] show ?case by simp
qed

lemma flags_applyMutation:
  "applyMutation mutation s = Inr s' \<Longrightarrow>
   classifyNodes s' = classifyNodes s \<and> attached s' = attached s"
  by (cases "mutType mutation")
     (auto simp: applyMutation_def applyUpdate_def Let_def split: sum.splits if_splits
        dest!: flags_insertAddedNodes flags_removeRemovedNodes)

lemma flags_applyMutations:
  "applyMutations mutations s = Inr s' \<Longrightarrow>
   classifyNodes s' = classifyNodes s \<and> attached s' = attached s"
proof (induction mutations arbitrary: s)
  case Nil
  then show ?case by simp
next
  case (Cons m ms)
  from Cons.prems obtain s1 where
    1: "applyMutation m s = Inr s1" and 2: "applyMutations ms s1 = Inr s'"
    by (auto split: sum.splits)
  from flags_applyMutation[OF 1] Cons.IH[OF 2] show ?case by simp
qed

lemma holder_insert_at:
  "b \<noteq> [] \<Longrightarrow> hd b = 0 \<Longrightarrow> kidPaths (insert_at b k n f) [Suc 0] = kidPaths f [Suc 0]"
  by (cases b) (auto intro!: kidPaths_cong simp: get_at_Cons_eq)

lemma holder_remove_at:
  "a \<noteq> [] \<Longrightarrow> hd a = 0 \<Longrightarrow> tl a \<noteq> [] \<Longrightarrow>
   kidPaths (remove_at a f) [Suc 0] = kidPaths f [Suc 0]"
  by (cases a) (auto intro!: kidPaths_cong simp: get_at_Cons_eq)

lemma adjust_path_hd0:
  "a \<noteq> [] \<Longrightarrow> hd a = 0 \<Longrightarrow> tl a \<noteq> [] \<Longrightarrow> p \<noteq> [] \<Longrightarrow> hd p = 0 \<Longrightarrow>
   adjust_path a p \<noteq> [] \<and> hd (adjust_path a p) = 0"
  by (cases a; cases p) auto

lemma classesWithin_hasClass:
  "classesWithin C f \<Longrightarrow> hasClass f (Some p) c \<Longrightarrow> c \<in> C"
  using forest_all_props_at[of "\<lambda>a. set (classList a) \<subseteq> C" f p]
  by (auto simp: classesWithin_def hasClass_def split: option.splits)

lemma idle_lookup:
  assumes "\<not> attached s" and "getShadowNode s idx = Some a"
    and "map_option ident (props_at (docKids s) [0]) = Some None"
  shows "a \<noteq> [] \<and> hd a = 0 \<and> tl a \<noteq> [] \<and> get_at (docKids s) a \<noteq> None"
proof -
  from getShadowNode_Some[OF assms(2)] assms(1) obtain i where
    i: "ident_at (docKids s) a = Some i" and v: "get_at (docKids s) a \<noteq> None"
    and h: "hd a = 0" "a \<noteq> []"
    by auto
  from i assms(3) have "a \<noteq> [0]"
    by (auto simp: ident_at_def)
  with h have "tl a \<noteq> []" by (cases a) auto
  with h v show ?thesis by simp
qed

lemma noTagsAdded_insertShadowNode:
  assumes idle: "\<not> classifyNodes s" "\<not> attached s"
    and root: "map_option ident (props_at (docKids s) [0]) = Some None"
    and ins: "insertShadowNode n pidx nidx lay s = Inr (r, s')"
  shows "noTagsAdded s s' \<and> (\<forall>place c. r = Some place \<longrightarrow> \<not> hasClass (docKids s') (Some place) c)"
proof (cases "if lid n = document_id then Some [0] else getShadowNode s pidx")
  case None
  from insertShadowNode_no_parent[OF None ins] idle show ?thesis
    by (simp add: noTagsAdded_def)
next
  case (Some p)
  from insertShadowNode_parent[OF Some ins] idle obtain a place where
    new: "insertNew (SNode a []) p (getShadowNode s nidx) (docKids s) = Inr (place, docKids s')"
    and r: "r = Some place" and cl: "classList a = []"
    and fl: "classifyNodes s' = classifyNodes s" "attached s' = attached s"
    by blast
  from insertNew_result[OF new] obtain k where
    place: "place = p @ [k]" and f': "docKids s' = insert_at p k (SNode a []) (docKids s)"
    and k: "(getShadowNode s nidx = None
             \<and> k = (case kids_at (docKids s) p of None \<Rightarrow> 0 | Some ks \<Rightarrow> length ks))
            \<or> getShadowNode s nidx = Some (p @ [k])"
    by blast
  have p: "p \<noteq> [] \<and> hd p = 0 \<and> get_at (docKids s) p \<noteq> None"
  proof (cases "lid n = document_id")
    case True
    with Some root show ?thesis by (auto simp: props_at_def)
  next
    case False
    with Some idle_lookup[OF idle(2) _ root, of pidx p] show ?thesis by simp
  qed
  then obtain x where x: "get_at (docKids s) p = Some x" by auto
  then have ks: "kids_at (docKids s) p = Some (childNodes x)"
    using p by (simp add: kids_at_def)
  have kle: "k \<le> length (childNodes x)"
  proof (cases "getShadowNode s nidx")
    case None
    with k ks show ?thesis by simp
  next
    case (Some c)
    with k have c: "c = p @ [k]" by simp
    from getShadowNode_Some[OF Some] have "get_at (docKids s) c \<noteq> None" by simp
    with c get_at_snoc[OF x, of k] show ?thesis
      by (auto simp: nth_opt_def split: if_splits)
  qed
  have at: "get_at (docKids s') place = Some (SNode a [])"
    unfolding place f' by (rule get_at_insert_at_place[OF ks kle])
  have w: "classesWithin C (docKids s')" if "classesWithin C (docKids s)" for C
    using that cl unfolding f' classesWithin_def
    by (intro forest_all_insert_at) simp_all
  have h: "kidPaths (docKids s') [1] = kidPaths (docKids s) [1]"
    unfolding f' using p by (simp add: holder_insert_at)
  have "\<not> hasClass (docKids s') (Some place) c" for c
    using at cl by (simp add: hasClass_def props_at_def)
  with w h fl idle r show ?thesis
    by (simp add: noTagsAdded_def)
qed

lemma noTagsAdded_moveShadowNode:
  assumes idle: "\<not> classifyNodes s" "\<not> attached s"
    and root: "map_option ident (props_at (docKids s) [0]) = Some None"
    and mv: "moveShadowNode index pidx nidx s = Inr (r, s')"
  shows "noTagsAdded s s'"
proof -
  from moveShadowNode_result[OF mv] idle have
    fl: "\<not> classifyNodes s'" "\<not> attached s'"
    and c: "(r = None \<and> docKids s' = docKids s)
          \<or> (\<exists>a p place. getShadowNode s index = Some a \<and> getShadowNode s pidx = Some p
                \<and> r = Some place
                \<and> moveNode a p (getShadowNode s nidx) (docKids s) = Inr (place, docKids s'))"
    by auto
  from c show ?thesis
  proof
    assume "r = None \<and> docKids s' = docKids s"
    with fl show ?thesis by (simp add: noTagsAdded_def)
  next
    assume "\<exists>a p place. getShadowNode s index = Some a \<and> getShadowNode s pidx = Some p
                \<and> r = Some place
                \<and> moveNode a p (getShadowNode s nidx) (docKids s) = Inr (place, docKids s')"
    then obtain a p place where a: "getShadowNode s index = Some a"
      and p: "getShadowNode s pidx = Some p"
      and m: "moveNode a p (getShadowNode s nidx) (docKids s) = Inr (place, docKids s')"
      by blast
    from moveNode_result[OF m] obtain n k where
      n: "get_at (docKids s) a = Some n"
      and f': "docKids s' = insert_at (adjust_path a p) k n (remove_at a (docKids s))"
      by blast
    note la = idle_lookup[OF idle(2) a root] and lp = idle_lookup[OF idle(2) p root]
    from adjust_path_hd0[of a p] la lp
    have ap: "adjust_path a p \<noteq> []" "hd (adjust_path a p) = 0" by simp_all
    have w: "classesWithin C (docKids s')" if "classesWithin C (docKids s)" for C
      using that forest_all_get_at[OF _ n] unfolding f' classesWithin_def
      by (intro forest_all_insert_at forest_all_remove_at) simp_all
    have h: "kidPaths (docKids s') [1] = kidPaths (docKids s) [1]"
      unfolding f' using ap la by (simp add: holder_insert_at holder_remove_at)
    from w h fl show ?thesis by (simp add: noTagsAdded_def)
  qed
qed

lemma noTagsAdded_updateShadowNode:
  assumes idle: "\<not> classifyNodes s" "\<not> attached s"
  shows "noTagsAdded s (updateShadowNode index lay s)"
proof -
  have w: "classesWithin C (docKids (updateShadowNode index lay s))"
    if "classesWithin C (docKids s)" for C
    using that idle unfolding classesWithin_def
    by (auto simp: updateShadowNode_def Let_def split: option.splits
        intro!: forest_all_upd_at)
  have h: "kidPaths (docKids (updateShadowNode index lay s)) [1] = kidPaths (docKids s) [1]"
    using idle by (auto simp: updateShadowNode_def Let_def split: option.splits)
  from w h idle show ?thesis by (simp add: noTagsAdded_def)
qed

lemma summary_empty:
  assumes "classesWithin {TopNewNodeClassName} (docKids s)" and "kidPaths (docKids s) [1] = []"
  shows "fst (getMutationSummary s)
       = \<lparr>newNodes = [], movedNodes = [], updatedNodes = [], removedNodes = []\<rparr>"
proof -
  have e: "getElementsByClassName att (docKids s) c = []" if "c \<noteq> TopNewNodeClassName" for c att
    using classesWithin_hasClass[OF assms(1)] that
    by (auto simp: getElementsByClassName_def filter_empty_conv)
  have "set (newNodes (fst (getMutationSummary s))) = {}"
    by (simp add: summary_new newNodes_set e)
  then have n: "newNodes (fst (getMutationSummary s)) = []" by simp
  have m: "movedNodes (fst (getMutationSummary s)) = []"
    by (simp add: summary_moved e)
  have u: "updatedNodes (fst (getMutationSummary s)) = []"
    by (simp add: summary_updated e)
  have r: "removedNodes (fst (getMutationSummary s)) = []"
    using assms(2) by (simp add: getMutationSummary_eq Let_def)
  from n m u r show ?thesis
    by (cases "fst (getMutationSummary s)") simp
qed

section \<open>Taking a node out and putting it in elsewhere\<close>

lemma nth_opt_remove:
  "x < length f \<Longrightarrow> x < y \<Longrightarrow> nth_opt (take x f @ drop (Suc x) f) (y - Suc 0) = nth_opt f y"
  "x < length f \<Longrightarrow> y < x \<Longrightarrow> nth_opt (take x f @ drop (Suc x) f) y = nth_opt f y"
  by (auto simp: nth_opt_def nth_append min_def)

lemma get_at_valid_hd: "get_at f (x # a) \<noteq> None \<Longrightarrow> x < length f"
  by (simp add: get_at_Cons_eq split: if_splits)

lemma get_at_valid_tl:
  "get_at f (x # a) \<noteq> None \<Longrightarrow> a \<noteq> [] \<Longrightarrow> get_at (childNodes (f ! x)) a \<noteq> None"
  by (simp add: get_at_Cons_eq split: if_splits)

lemma get_at_remove_at:
  "get_at f a \<noteq> None \<Longrightarrow> \<not> prefix a c \<Longrightarrow>
   map_option props (get_at (remove_at a f) (adjust_path a c)) = map_option props (get_at f c)"
proof (induction a c arbitrary: f rule: adjust_path.induct)
  case (1 x a y b)
  note v = get_at_valid_hd[OF "1.prems"(1)]
  show ?case
  proof (cases "a = []")
    case True
    with "1.prems"(2) have xy: "x \<noteq> y" by simp
    with v True show ?thesis
      by (cases "x < y") (simp_all add: get_at.simps(2) nth_opt_remove)
  next
    case False
    show ?thesis
    proof (cases "x = y")
      case True
      show ?thesis
      proof (cases "b = []")
        case True
        with \<open>x = y\<close> False v show ?thesis
          by (simp add: get_at_Cons_eq)
      next
        case bne: False
        from "1.prems"(2) True have np: "\<not> prefix a b" by simp
        from bne np have "adjust_path a b \<noteq> []"
          by (cases a; cases b) auto
        with "1.IH"[OF False True get_at_valid_tl[OF "1.prems"(1) False] np] True False v bne
        show ?thesis
          by (simp add: get_at_Cons_eq)
      qed
    next
      case False
      with \<open>a \<noteq> []\<close> v show ?thesis
        by (simp add: get_at_Cons_eq)
    qed
  qed
next
  case "2_1"
  then show ?case by simp
next
  case "2_2"
  then show ?case by simp
qed


lemma kids_at_remove_at_top:
  "get_at f a \<noteq> None \<Longrightarrow>
   map_option length (kids_at (remove_at a f) [])
   = map_option (\<lambda>ks. if butlast a = [] then length ks - 1 else length ks) (kids_at f [])"
proof (cases a)
  case Nil
  assume "get_at f a \<noteq> None"
  with Nil show ?thesis by simp
next
  case (Cons x r)
  assume "get_at f a \<noteq> None"
  with Cons have "x < length f" by (simp add: get_at_valid_hd)
  with Cons show ?thesis
    by (cases "r = []") (simp_all add: kids_at_def)
qed

lemma kids_at_remove_at:
  "get_at f a \<noteq> None \<Longrightarrow> \<not> prefix a c \<Longrightarrow>
   map_option length (kids_at (remove_at a f) (adjust_path a c))
   = map_option (\<lambda>ks. if butlast a = c then length ks - 1 else length ks) (kids_at f c)"
proof (induction a c arbitrary: f rule: adjust_path.induct)
  case (1 x a y b)
  note v = get_at_valid_hd[OF "1.prems"(1)]
  show ?case
  proof (cases "a = []")
    case True
    with "1.prems"(2) have xy: "x \<noteq> y" by simp
    with v True show ?thesis
      by (cases "x < y") (simp_all add: kids_at_def get_at.simps(2) nth_opt_remove)
  next
    case False
    show ?thesis
    proof (cases "x = y")
      case True
      from "1.prems"(2) True have np: "\<not> prefix a b" by simp
      from "1.IH"[OF False True get_at_valid_tl[OF "1.prems"(1) False] np] True False v
      show ?thesis
        by (simp add: kids_at_Cons)
    next
      case False
      with \<open>a \<noteq> []\<close> v show ?thesis
        by (simp add: kids_at_Cons)
    qed
  qed
next
  case "2_1"
  then show ?case by simp
next
  case "2_2"
  then show ?case by (simp add: kids_at_remove_at_top)
qed

lemma adjust_path_single:
  "a \<noteq> [] \<Longrightarrow> adjust_path a [k] = [if butlast a = [] \<and> last a < k then k - 1 else k]"
  by (cases a; cases "tl a = []") auto

lemma adjust_path_snoc:
  "a \<noteq> [] \<Longrightarrow> \<not> prefix a p \<Longrightarrow>
   adjust_path a (p @ [k])
   = adjust_path a p @ [if butlast a = p \<and> last a < k then k - 1 else k]"
proof (induction a p rule: adjust_path.induct)
  case (1 x a y b)
  then show ?case by (cases "a = []") auto
next
  case "2_1"
  then show ?case by simp
next
  case "2_2"
  then show ?case by (simp add: adjust_path_single)
qed

lemma kids_at_insert_at:
  "kids_at f b = Some ks \<Longrightarrow> kids_at (insert_at b k n f) b = Some (take k ks @ n # drop k ks)"
proof (induction b arbitrary: f)
  case Nil
  then show ?case by (simp add: kids_at_def)
next
  case (Cons j b)
  from Cons.prems have j: "j < length f" and ks: "kids_at (childNodes (f ! j)) b = Some ks"
    by (simp_all add: kids_at_Cons split: if_splits)
  from Cons.IH[OF ks] j show ?case
    by (simp add: kids_at_Cons)
qed

lemma props_at_insert_at: "props_at (insert_at b k n f) b = props_at f b"
proof (induction b arbitrary: f)
  case Nil
  then show ?case by (simp add: props_at_def)
next
  case (Cons j b)
  then show ?case
    by (cases "b = []") (auto simp: props_at_def get_at_Cons_eq)
qed

lemma get_at_kid: "kids_at f b = Some ks \<Longrightarrow> get_at f (b @ [i]) = nth_opt ks i"
  by (cases "b = []") (auto simp: kids_at_def get_at.simps(2) get_at_snoc split: option.splits)


lemma nth_opt_after_insert:
  "k \<le> length ks \<Longrightarrow> nth_opt (take k ks @ n # drop k ks) (Suc k) = nth_opt ks k"
  by (auto simp: nth_opt_def nth_append min_def)

lemma prefix_snoc_cases: "prefix a (p @ [k]) \<Longrightarrow> prefix a p \<or> a = p @ [k]"
  by auto

lemma moveNode_moves:
  assumes a: "get_at f a = Some n" and p: "get_at f p = Some x" and h: "\<not> prefix a p"
    and c: "case nxt of None \<Rightarrow> True
            | Some c \<Rightarrow> butlast c = p \<and> c \<noteq> a \<and> get_at f c \<noteq> None"
  shows "\<exists>k f'. moveNode a p nxt f = Inr (adjust_path a p @ [k], f')
      \<and> get_at f' (adjust_path a p @ [k]) = Some n
      \<and> props_at f' (adjust_path a p) = Some (props x)
      \<and> (case nxt of
            None \<Rightarrow> get_at f' (adjust_path a p @ [Suc k]) = None
          | Some c \<Rightarrow> props_at f' (adjust_path a p @ [Suc k]) = props_at f c)"
proof -
  let ?p = "adjust_path a p"
  let ?g = "remove_at a f"
  from a have ane: "a \<noteq> []" by auto
  from p have pne: "p \<noteq> []" by auto
  from a have av: "get_at f a \<noteq> None" by simp
  from get_at_remove_at[OF av h] p obtain x' where
    x': "get_at ?g ?p = Some x'" and px: "props x' = props x"
    by auto
  from x' have p'ne: "?p \<noteq> []" by auto
  let ?ks = "childNodes x" and ?ks' = "childNodes x'"
  from p pne have ks: "kids_at f p = Some ?ks" by (simp add: kids_at_def)
  from x' p'ne have ks': "kids_at ?g ?p = Some ?ks'" by (simp add: kids_at_def)
  from kids_at_remove_at[OF av h] ks ks'
  have len: "length ?ks' = (if butlast a = p then length ?ks - 1 else length ?ks)"
    by simp
  have la: "last a < length ?ks" if "butlast a = p"
  proof -
    from that ane have "a = p @ [last a]" by (metis append_butlast_last_id)
    with get_at_snoc[OF p, of "last a"] a have "nth_opt ?ks (last a) = Some n" by simp
    then show ?thesis by (simp add: nth_opt_def split: if_splits)
  qed
  have pp: "props_at (insert_at ?p k n ?g) ?p = Some (props x)" for k
    using x' px by (simp add: props_at_insert_at) (simp add: props_at_def)
  show ?thesis
  proof (cases nxt)
    case None
    define k where
      "k = (if butlast a = p \<and> last a < length ?ks then length ?ks - 1 else length ?ks)"
    have k: "k = length ?ks'" using len la unfolding k_def by auto
    have m: "moveNode a p nxt f = Inr (?p @ [k], insert_at ?p k n ?g)"
      using None a h ks unfolding k_def by (simp add: moveNode_def Let_def)
    have 1: "get_at (insert_at ?p k n ?g) (?p @ [k]) = Some n"
      by (rule get_at_insert_at_place[OF ks']) (simp add: k)
    have "get_at (insert_at ?p k n ?g) (?p @ [Suc k])
          = nth_opt (take k ?ks' @ n # drop k ?ks') (Suc k)"
      by (rule get_at_kid[OF kids_at_insert_at[OF ks']])
    also have "\<dots> = None" unfolding k by (simp add: nth_opt_def)
    finally have 2: "get_at (insert_at ?p k n ?g) (?p @ [Suc k]) = None" .
    from m 1 2 pp None show ?thesis by auto
  next
    case (Some c)
    with c have bc: "butlast c = p" and ca: "c \<noteq> a" and cv: "get_at f c \<noteq> None"
      by simp_all
    from cv have cne: "c \<noteq> []" by auto
    with bc have ceq: "c = p @ [last c]" by (metis append_butlast_last_id)
    define k where "k = (if butlast a = p \<and> last a < last c then last c - 1 else last c)"
    have npc: "\<not> prefix a c"
      using h ca ceq prefix_snoc_cases[of a p "last c"] by auto
    have adj: "adjust_path a c = ?p @ [k]"
      using adjust_path_snoc[OF ane h, of "last c"] ceq unfolding k_def by simp
    from get_at_remove_at[OF av npc] have
      pc: "map_option props (get_at ?g (?p @ [k])) = map_option props (get_at f c)"
      unfolding adj .
    with cv have "get_at ?g (?p @ [k]) \<noteq> None" by auto
    with get_at_kid[OF ks', of k] have kl: "k < length ?ks'"
      by (simp add: nth_opt_def split: if_splits)
    have m: "moveNode a p nxt f = Inr (?p @ [k], insert_at ?p k n ?g)"
      using Some a h bc cne ca unfolding k_def by (simp add: moveNode_def Let_def)
    have 1: "get_at (insert_at ?p k n ?g) (?p @ [k]) = Some n"
      by (rule get_at_insert_at_place[OF ks']) (use kl in simp)
    have "get_at (insert_at ?p k n ?g) (?p @ [Suc k])
          = nth_opt (take k ?ks' @ n # drop k ?ks') (Suc k)"
      by (rule get_at_kid[OF kids_at_insert_at[OF ks']])
    also have "\<dots> = nth_opt ?ks' k"
      by (rule nth_opt_after_insert) (use kl in simp)
    also have "\<dots> = get_at ?g (?p @ [k])"
      by (rule get_at_kid[OF ks', symmetric])
    finally have "props_at (insert_at ?p k n ?g) (?p @ [Suc k]) = props_at f c"
      using pc by (simp add: props_at_def)
    with m 1 pp Some show ?thesis by auto
  qed
qed





lemma ident_at_upd_at:
  "(\<And>x. ident (g x) = ident x) \<Longrightarrow> ident_at (upd_at g p f) q = ident_at f q"
  by (auto simp: ident_at_def get_at_upd_at_props split: option.splits)

lemma ident_at_setClass [simp]: "ident_at (setClass x c f) q = ident_at f q"
  by (cases x) (simp_all add: setClass_def ident_at_upd_at)

lemma ident_at_removeClass [simp]: "ident_at (removeClass x c f) q = ident_at f q"
  by (cases x) (simp_all add: removeClass_def ident_at_upd_at)

lemma ident_at_removeAllClasses [simp]: "ident_at (removeAllClasses x f) q = ident_at f q"
  by (cases x) (simp_all add: removeAllClasses_def ident_at_upd_at)

lemma valid_upd_at: "(get_at (upd_at g p f) q = None) = (get_at f q = None)"
proof -
  have "(props_at (upd_at g p f) q = None) = (props_at f q = None)"
    by (simp add: get_at_upd_at_props)
  then show ?thesis by (simp add: props_at_def)
qed

lemma valid_setClass [simp]: "(get_at (setClass x c f) q = None) = (get_at f q = None)"
  by (cases x) (simp_all add: setClass_def valid_upd_at)

lemma valid_removeClass [simp]: "(get_at (removeClass x c f) q = None) = (get_at f q = None)"
  by (cases x) (simp_all add: removeClass_def valid_upd_at)

lemma collectLoop_ident [simp]:
  "ident_at (fst (collectLoop att c f out)) q = ident_at f q"
proof (induction att c f out rule: collectLoop.induct)
  case (1 att c f out)
  show ?case
  proof (cases "getElementsByClassName att f c")
    case Nil
    then show ?thesis by (simp add: collectLoop.simps[of att c f])
  next
    case (Cons n r)
    with 1[OF Cons] show ?thesis by (simp add: collectLoop.simps[of att c f])
  qed
qed

lemma finalLoop_ident [simp]: "ident_at (finalLoop att f) q = ident_at f q"
proof (induction att f rule: finalLoop.induct)
  case (1 att f)
  show ?case
  proof (cases "getElementsByClassName att f FinalClassName")
    case Nil
    then show ?thesis by (simp add: finalLoop.simps[of att f])
  next
    case (Cons n r)
    with 1[OF Cons] show ?thesis by (simp add: finalLoop.simps[of att f])
  qed
qed

lemma discoverQueueLoop_ident [simp]:
  "ident_at (fst (discoverQueueLoop q f out)) r = ident_at f r"
  by (induction q f out rule: discoverQueueLoop.induct) simp_all

lemma newNodesLoop_ident [simp]:
  "ident_at (fst (newNodesLoop att f out)) q = ident_at f q"
proof (induction att f out rule: newNodesLoop.induct)
  case (1 att f out)
  show ?case
  proof (cases "getElementsByClassName att f NewNodeClassName")
    case Nil
    then show ?thesis by (simp add: newNodesLoop.simps[of att f])
  next
    case (Cons t r)
    obtain f' out' where d: "discoverQueueLoop [t] f out = (f', out')"
      by (cases "discoverQueueLoop [t] f out")
    have "ident_at f' q = ident_at f q"
      using discoverQueueLoop_ident[of "[t]" f out q] d by simp
    with "1.IH"[OF Cons d[symmetric]] Cons d show ?thesis
      by (simp add: newNodesLoop.simps[of att f])
  qed
qed




section \<open>C8: an added node that has an index is moved\<close>

lemma props_at_Some_iff: "props_at f q = Some y \<longleftrightarrow> (\<exists>n. get_at f q = Some n \<and> props n = y)"
  by (auto simp: props_at_def)












section \<open>The flag and the holder when an exception leaves a batch\<close>

lemma insertShadowNode_place:
  assumes par: "(if lid n = document_id then Some [0] else getShadowNode s pidx) = Some p"
    and v: "get_at (docKids s) p \<noteq> None"
    and ins: "insertShadowNode n pidx nidx lay s = Inr (r, s')"
  shows "\<exists>a k. r = Some (p @ [k])
           \<and> docKids s' = insert_at p k (SNode a []) (docKids s)
           \<and> get_at (docKids s') (p @ [k]) = Some (SNode a [])
           \<and> ident a = Some (fst (setNodeIndex n s))
           \<and> (\<not> classifyNodes s \<longrightarrow> classList a = [])
           \<and> (classifyNodes s \<longrightarrow> NewNodeClassName \<in> set (classList a))"
proof -
  from insertShadowNode_parent[OF par ins] obtain a place where
    new: "insertNew (SNode a []) p (getShadowNode s nidx) (docKids s) = Inr (place, docKids s')"
    and r: "r = Some place" and i: "ident a = Some (fst (setNodeIndex n s))"
    and c0: "\<not> classifyNodes s \<longrightarrow> classList a = []"
    and c1: "classifyNodes s \<longrightarrow> NewNodeClassName \<in> set (classList a)"
    by blast
  from insertNew_result[OF new] obtain k where
    place: "place = p @ [k]" and f': "docKids s' = insert_at p k (SNode a []) (docKids s)"
    and k: "(getShadowNode s nidx = None
             \<and> k = (case kids_at (docKids s) p of None \<Rightarrow> 0 | Some ks \<Rightarrow> length ks))
            \<or> getShadowNode s nidx = Some (p @ [k])"
    by blast
  from v obtain x where x: "get_at (docKids s) p = Some x" by auto
  then have pne: "p \<noteq> []" by auto
  with x have ks: "kids_at (docKids s) p = Some (childNodes x)"
    by (simp add: kids_at_def)
  have kle: "k \<le> length (childNodes x)"
  proof (cases "getShadowNode s nidx")
    case None
    with k ks show ?thesis by simp
  next
    case (Some c)
    with k have c: "c = p @ [k]" by simp
    from getShadowNode_Some[OF Some] have "get_at (docKids s) c \<noteq> None" by simp
    with c get_at_snoc[OF x, of k] show ?thesis
      by (auto simp: nth_opt_def split: if_splits)
  qed
  have at: "get_at (docKids s') (p @ [k]) = Some (SNode a [])"
    unfolding f' by (rule get_at_insert_at_place[OF ks kle])
  from r place f' at i c0 c1 show ?thesis by blast
qed

lemma insertShadowNode_thrown:
  "insertShadowNode n pidx nidx lay s = Inl (e, s') \<Longrightarrow>
   classifyNodes s' = classifyNodes s \<and> attached s' = attached s"
  by (auto simp: insertShadowNode_def Let_def case_prod_beta split: option.splits sum.splits
      if_splits)

lemma moveShadowNode_thrown:
  "moveShadowNode index pidx nidx s = Inl (e, s') \<Longrightarrow>
   classifyNodes s' = classifyNodes s \<and> attached s' = attached s"
  by (auto simp: moveShadowNode_def Let_def split: option.splits sum.splits if_splits)

lemma removeShadowNode_thrown:
  "removeShadowNode i s = Inl (e, s') \<Longrightarrow>
   classifyNodes s' = classifyNodes s \<and> attached s' = attached s"
  by (auto simp: removeShadowNode_def Let_def split: option.splits sum.splits)

lemma thrown_applyInsert:
  "applyInsert a parent previous next force s = Inl (e, s') \<longrightarrow>
     classifyNodes s' = classifyNodes s \<and> attached s' = attached s"
  "discoverChildren parent previous cs s = Inl (e, s') \<longrightarrow>
     classifyNodes s' = classifyNodes s \<and> attached s' = attached s"
proof (induction a parent previous "next" force s and parent previous cs s
    arbitrary: s' and s' rule: applyInsert_discoverChildren.induct)
  case (1 i ks parent previous nxt force s)
  show ?case
  proof
    assume r: "applyInsert (LNode i ks) parent previous nxt force s = Inl (e, s')"
    show "classifyNodes s' = classifyNodes s \<and> attached s' = attached s"
    proof (cases "shouldProcessChildListMutation s (LNode i ks) parent \<or> force")
      case False
      with r show ?thesis by (simp add: applyInsert_eq)
    next
      case True
      show ?thesis
      proof (cases "getNodeIndex s (Some (LNode i ks))")
        case None
        show ?thesis
        proof (cases "insertShadowNode (LNode i ks) (getNodeIndex s (Some parent))
                        (getNodeIndex s nxt) None s")
          case (Inl x)
          with r True None have "x = (e, s')" by (simp add: applyInsert_eq)
          with Inl insertShadowNode_thrown show ?thesis by blast
        next
          case (Inr y)
          obtain sn s1 where y: "y = (sn, s1)" by (cases y)
          from Inr y have ins: "insertShadowNode (LNode i ks) (getNodeIndex s (Some parent))
                  (getNodeIndex s nxt) None s = Inr (sn, s1)" by simp
          with r True None have d: "discoverChildren (LNode i ks) None ks
                    (s1\<lparr>docKids := setClass sn FinalClassName (docKids s1)\<rparr>) = Inl (e, s')"
            by (simp add: applyInsert_eq)
          from "1.IH"[OF refl refl refl refl refl True None ins refl] d
            insertShadowNode_flags[OF ins]
          show ?thesis by simp
        qed
      next
        case (Some j)
        from r True Some have
          "moveShadowNode (Some j) (getNodeIndex s (Some parent)) (getNodeIndex s nxt) s
             = Inl (e, s')"
          by (auto simp: applyInsert_eq split: sum.splits)
        then show ?thesis by (rule moveShadowNode_thrown)
      qed
    qed
  qed
next
  case (2 parent previous s)
  then show ?case by simp
next
  case (3 parent previous c cs s)
  show ?case
  proof
    assume r: "discoverChildren parent previous (c # cs) s = Inl (e, s')"
    show "classifyNodes s' = classifyNodes s \<and> attached s' = attached s"
    proof (cases "discoverChildren parent (Some c) cs s")
      case (Inl x)
      with r have "x = (e, s')" by simp
      with Inl "3.IH"(1) show ?thesis by simp
    next
      case (Inr s1)
      with r have b: "applyInsert c parent previous (case cs of [] \<Rightarrow> None | d # x \<Rightarrow> Some d)
                        True s1 = Inl (e, s')"
        by simp
      from "3.IH"(2)[OF Inr] b flags_applyInsert(2)[of parent "Some c" cs s s1] Inr
      show ?thesis by simp
    qed
  qed
qed

lemma thrown_insertAddedNodes:
  "insertAddedNodes target previous added next s = Inl (e, s') \<Longrightarrow>
   classifyNodes s' = classifyNodes s \<and> attached s' = attached s"
proof (induction added arbitrary: previous s')
  case Nil
  then show ?case by simp
next
  case (Cons a as)
  show ?case
  proof (cases "insertAddedNodes target (Some a) as next s")
    case (Inl x)
    with Cons.prems have "x = (e, s')" by simp
    with Inl Cons.IH show ?thesis by simp
  next
    case (Inr s1)
    with Cons.prems have
      "applyInsert a target previous (case as of [] \<Rightarrow> next | b # x \<Rightarrow> Some b) False s1
       = Inl (e, s')"
      by simp
    with thrown_applyInsert(1) flags_insertAddedNodes[OF Inr] show ?thesis by simp
  qed
qed

lemma flags_applyRemove:
  "applyRemove r target s = Inr s' \<Longrightarrow>
   classifyNodes s' = classifyNodes s \<and> attached s' = attached s"
  by (auto simp: applyRemove_def Let_def dest: removeShadowNode_flags split: if_splits)

lemma thrown_applyRemove:
  "applyRemove r target s = Inl (e, s') \<Longrightarrow>
   classifyNodes s' = classifyNodes s \<and> attached s' = attached s"
  by (auto simp: applyRemove_def Let_def dest: removeShadowNode_thrown split: if_splits)

lemma thrown_removeRemovedNodes:
  "removeRemovedNodes target rs s = Inl (e, s') \<Longrightarrow>
   classifyNodes s' = classifyNodes s \<and> attached s' = attached s"
proof (induction rs arbitrary: s)
  case Nil
  then show ?case by simp
next
  case (Cons r rs)
  show ?case
  proof (cases "applyRemove r target s")
    case (Inl x)
    with Cons.prems have "x = (e, s')" by simp
    with Inl thrown_applyRemove show ?thesis by blast
  next
    case (Inr s1)
    with Cons.prems have "removeRemovedNodes target rs s1 = Inl (e, s')" by simp
    from Cons.IH[OF this] flags_applyRemove[OF Inr] show ?thesis by simp
  qed
qed

lemma thrown_applyMutation:
  "applyMutation mutation s = Inl (e, s') \<Longrightarrow>
   classifyNodes s' = classifyNodes s \<and> attached s' = attached s"
proof (cases "mutType mutation")
  case childList
  assume r: "applyMutation mutation s = Inl (e, s')"
  show ?thesis
  proof (cases "insertAddedNodes (mutTarget mutation) (mutPreviousSibling mutation)
                  (mutAddedNodes mutation) (mutNextSibling mutation) s")
    case (Inl x)
    with r childList have "x = (e, s')" by (simp add: applyMutation_def)
    with Inl thrown_insertAddedNodes show ?thesis by blast
  next
    case (Inr s1)
    with r childList have
      "removeRemovedNodes (mutTarget mutation) (mutRemovedNodes mutation) s1 = Inl (e, s')"
      by (simp add: applyMutation_def)
    from thrown_removeRemovedNodes[OF this] flags_insertAddedNodes[OF Inr]
    show ?thesis by simp
  qed
qed (simp_all add: applyMutation_def)

lemma thrown_applyMutations:
  "applyMutations mutations s = Inl (e, s') \<Longrightarrow>
   classifyNodes s' = classifyNodes s \<and> attached s' = attached s"
proof (induction mutations arbitrary: s)
  case Nil
  then show ?case by simp
next
  case (Cons m ms)
  show ?case
  proof (cases "applyMutation m s")
    case (Inl x)
    with Cons.prems have "x = (e, s')" by simp
    with Inl thrown_applyMutation show ?thesis by blast
  next
    case (Inr s1)
    with Cons.prems have "applyMutations ms s1 = Inl (e, s')" by simp
    from Cons.IH[OF this] flags_applyMutation[OF Inr] show ?thesis by simp
  qed
qed

lemma thrown_applyMutationBatch:
  "applyMutationBatch mutations s = Inl (e, s') \<Longrightarrow> classifyNodes s' \<and> attached s'"
proof -
  assume "applyMutationBatch mutations s = Inl (e, s')"
  then have "applyMutations mutations (s\<lparr>attached := True, classifyNodes := True\<rparr>)
             = Inl (e, s')"
    by (simp add: applyMutationBatch_def Let_def case_prod_beta split: sum.splits)
  from thrown_applyMutations[OF this] show ?thesis by simp
qed

lemma adjust_path_child: "adjust_path (p @ [x]) p = p"
  by (induction p) auto

lemma moveNode_lands:
  assumes m: "moveNode a p nxt f = Inr (place, f')" and p: "get_at f p \<noteq> None"
    and c: "case nxt of None \<Rightarrow> True | Some c \<Rightarrow> get_at f c \<noteq> None"
  shows "get_at f' place = get_at f a \<and> get_at f a \<noteq> None"
proof -
  from m obtain n where a: "get_at f a = Some n" and h: "\<not> prefix a p"
    and b: "case nxt of None \<Rightarrow> True | Some c \<Rightarrow> c \<noteq> [] \<and> butlast c = p"
    by (auto simp: moveNode_def Let_def split: option.splits if_splits)
  from p obtain x where x: "get_at f p = Some x" by auto
  show ?thesis
  proof (cases "nxt = Some a")
    case True
    from a have ane: "a \<noteq> []" by auto
    from x have pne: "p \<noteq> []" by auto
    from True b have bp: "butlast a = p" by simp
    with ane have aeq: "a = p @ [last a]" by (metis append_butlast_last_id)
    have adj: "adjust_path a p = p"
      using adjust_path_child[of p "last a"] aeq by simp
    from a have av: "get_at f a \<noteq> None" by simp
    from get_at_remove_at[OF av h] x adj obtain x' where
      x': "get_at (remove_at a f) p = Some x'"
      by auto
    from x' pne have ks': "kids_at (remove_at a f) p = Some (childNodes x')"
      by (simp add: kids_at_def)
    from x pne have ks: "kids_at f p = Some (childNodes x)"
      by (simp add: kids_at_def)
    from kids_at_remove_at[OF av h] ks ks' adj bp
    have len: "length (childNodes x') = length (childNodes x) - 1" by simp
    from get_at_snoc[OF x, of "last a"] aeq a have "nth_opt (childNodes x) (last a) = Some n"
      by simp
    then have la: "last a < length (childNodes x)"
      by (simp add: nth_opt_def split: if_splits)
    from m True a h bp ane adj
    have r: "place = p @ [last a]" "f' = insert_at p (last a) n (remove_at a f)"
      by (simp_all add: moveNode_def Let_def)
    have "get_at (insert_at p (last a) n (remove_at a f)) (p @ [last a]) = Some n"
      by (rule get_at_insert_at_place[OF ks']) (use la len in simp)
    with r a show ?thesis by simp
  next
    case False
    have c': "case nxt of None \<Rightarrow> True
              | Some c \<Rightarrow> butlast c = p \<and> c \<noteq> a \<and> get_at f c \<noteq> None"
      using b c False by (cases nxt) simp_all
    from moveNode_moves[OF a x h c'] m a show ?thesis by auto
  qed
qed

lemma moveShadowNode_tags_moved:
  assumes cl: "classifyNodes s"
    and mv: "moveShadowNode index pidx nidx s = Inr (Some place, s')"
  shows "hasClass (docKids s') (Some place) MovedNodeClassName"
proof -
  let ?f = "docKids s"
  from moveShadowNode_result[OF mv] cl obtain a p where
    a: "getShadowNode s index = Some a" and p: "getShadowNode s pidx = Some p"
    and m: "moveNode a p (getShadowNode s nidx)
              (let f = setClass (Some a) MovedNodeClassName ?f
               in if hasClass f (Some p) NewNodeClassName
                  then removeClass (Some a) TopNewNodeClassName f
                  else setClass (Some a) TopNewNodeClassName f)
            = Inr (place, docKids s')"
    by auto
  define f1 where
    "f1 = (let f = setClass (Some a) MovedNodeClassName ?f
           in if hasClass f (Some p) NewNodeClassName
              then removeClass (Some a) TopNewNodeClassName f
              else setClass (Some a) TopNewNodeClassName f)"
  have v1: "(get_at f1 q = None) = (get_at ?f q = None)" for q
    by (simp add: f1_def Let_def)
  from getShadowNode_Some[OF a] have va: "get_at ?f a \<noteq> None" by simp
  from getShadowNode_Some[OF p] have vp: "get_at f1 p \<noteq> None" by (simp add: v1)
  have vc: "case getShadowNode s nidx of None \<Rightarrow> True | Some c \<Rightarrow> get_at f1 c \<noteq> None"
  proof (cases "getShadowNode s nidx")
    case None
    then show ?thesis by simp
  next
    case (Some c)
    from getShadowNode_Some[OF Some] show ?thesis using Some by (simp add: v1)
  qed
  from m have m1: "moveNode a p (getShadowNode s nidx) f1 = Inr (place, docKids s')"
    by (simp add: f1_def)
  from moveNode_lands[OF m1 vp vc] have g: "get_at (docKids s') place = get_at f1 a" by simp
  have pa: "props_at ?f a \<noteq> None" using va by (simp add: props_at_def)
  have pa': "props_at (setClass (Some a) MovedNodeClassName ?f) a \<noteq> None"
    using va by (simp add: props_at_def)
  have "hasClass f1 (Some a) MovedNodeClassName"
    using pa pa' by (auto simp: f1_def Let_def hasClass_setClass hasClass_removeClass)
  moreover have "props_at (docKids s') place = props_at f1 a"
    using g by (simp add: props_at_def)
  ultimately show ?thesis by (simp add: hasClass_def)
qed

lemma updateShadowNode_tags_updated:
  assumes "classifyNodes s" and "getShadowNode s index = Some a"
  shows "hasClass (docKids (updateShadowNode index lay s)) (Some a) UpdatedNodeClassName"
proof -
  from getShadowNode_Some[OF assms(2)] have "get_at (docKids s) a \<noteq> None" by simp
  then have "props_at (docKids s) a \<noteq> None" by (simp add: props_at_def)
  with assms show ?thesis
    by (auto simp: updateShadowNode_def Let_def assert_def hasClass_setClass
        get_at_upd_at_props split: option.splits)
qed

lemma insertShadowNode_tags_new:
  assumes cl: "classifyNodes s"
    and root: "lid n = document_id \<longrightarrow> get_at (docKids s) [0] \<noteq> None"
    and ins: "insertShadowNode n pidx nidx lay s = Inr (Some place, s')"
  shows "hasClass (docKids s') (Some place) NewNodeClassName"
proof (cases "if lid n = document_id then Some [0] else getShadowNode s pidx")
  case None
  from insertShadowNode_no_parent[OF None ins] show ?thesis by simp
next
  case (Some p)
  have v: "get_at (docKids s) p \<noteq> None"
  proof (cases "lid n = document_id")
    case True
    with Some root show ?thesis by auto
  next
    case False
    with Some getShadowNode_Some[of s pidx p] show ?thesis by simp
  qed
  from insertShadowNode_place[OF Some v ins] cl obtain a k where
    "place = p @ [k]" "get_at (docKids s') (p @ [k]) = Some (SNode a [])"
    "NewNodeClassName \<in> set (classList a)"
    by auto
  then show ?thesis by (simp add: hasClass_def props_at_def)
qed

section \<open>C10: tags are attached while the flag is on\<close>

text \<open>
  The page script \<open>body.appendChild(N); body.insertBefore(X, K); N.appendChild(K)\<close> on
  the page \<open>document > body > K\<close>, with new elements \<open>N\<close> and \<open>X\<close> (identities 3 and 4):
  the page becomes \<open>document > body > [X, N > [K]]\<close>. The observer delivers four records.
  The first makes the engine discover \<open>K\<close> under \<open>N\<close> and move its mirror there; the
  second names \<open>K\<close> as the next sibling of \<open>X\<close> under \<open>body\<close>, and \<open>insertBefore\<close> throws.
\<close>

definition adoptingNode :: lnode where
  "adoptingNode = LNode 3 [liveK]"

definition abortedBody :: lnode where
  "abortedBody = LNode 1 [LNode 4 [], adoptingNode]"

definition abortedBatch :: "MutationRecord list" where
  "abortedBatch =
     [childListRecord abortedBody [adoptingNode] [] (Some liveK) None,
      childListRecord abortedBody [LNode 4 []] [] None (Some liveK),
      childListRecord abortedBody [] [liveK] (Some (LNode 4 [])) (Some adoptingNode),
      childListRecord adoptingNode [liveK] [] None None]"

text \<open>
  C10 (as the code has it). The three primitives attach tags exactly when the flag
  \<open>classifyNodes\<close> is on. With the flag off and the holder detached, \<open>insertShadowNode\<close>,
  \<open>moveShadowNode\<close> and \<open>updateShadowNode\<close> add no class to any node of the shadow
  document, the node created by \<open>insertShadowNode\<close> carries no class at all, the holder
  keeps its children, and a summary read after such a call is empty when the document
  held nothing but top-new marks of earlier batches. With the flag on, the node that
  \<open>insertShadowNode\<close> creates is tagged new, the node that \<open>moveShadowNode\<close> moves is
  tagged moved, and the node that \<open>updateShadowNode\<close> finds is tagged updated. The flag is
  off in a fresh engine; \<open>applyMutationBatch\<close> switches it on before the first record; no
  record changes it, whether it returns or throws; when the batch returns, the flag is
  off and the holder detached; when a DOM exception leaves the batch, the flag is still on
  and the holder still attached.
\<close>

theorem tags_only_while_classifying:
  assumes idle: "\<not> classifyNodes s" "\<not> attached s"
    and root: "map_option ident (props_at (docKids s) [0]) = Some None"
  shows "(\<forall>r s'. insertShadowNode n pidx nidx lay s = Inr (r, s') \<longrightarrow>
            noTagsAdded s s'
          \<and> (\<forall>place c. r = Some place \<longrightarrow> \<not> hasClass (docKids s') (Some place) c))
       \<and> (\<forall>r s'. moveShadowNode index pidx' nidx' s = Inr (r, s') \<longrightarrow> noTagsAdded s s')
       \<and> noTagsAdded s (updateShadowNode index' lay' s)
       \<and> (\<forall>s'. noTagsAdded s s' \<and> classesWithin {TopNewNodeClassName} (docKids s)
                \<and> kidPaths (docKids s) [1] = []
              \<longrightarrow> fst (getMutationSummary s')
                  = \<lparr>newNodes = [], movedNodes = [], updatedNodes = [], removedNodes = []\<rparr>)
       \<and> (\<forall>t place t'. classifyNodes t
              \<and> (lid n = document_id \<longrightarrow> get_at (docKids t) [0] \<noteq> None)
              \<and> insertShadowNode n pidx nidx lay t = Inr (Some place, t')
              \<longrightarrow> hasClass (docKids t') (Some place) NewNodeClassName)
       \<and> (\<forall>t place t'. classifyNodes t
              \<and> moveShadowNode index pidx' nidx' t = Inr (Some place, t')
              \<longrightarrow> hasClass (docKids t') (Some place) MovedNodeClassName)
       \<and> (\<forall>t a. classifyNodes t \<and> getShadowNode t index' = Some a
              \<longrightarrow> hasClass (docKids (updateShadowNode index' lay' t)) (Some a)
                    UpdatedNodeClassName)
       \<and> (\<forall>mutations s1 s2. applyMutations mutations s1 = Inr s2
              \<longrightarrow> classifyNodes s2 = classifyNodes s1)
       \<and> (\<forall>mutations s1 e s2. applyMutations mutations s1 = Inl (e, s2)
              \<longrightarrow> classifyNodes s2 = classifyNodes s1 \<and> attached s2 = attached s1)
       \<and> (\<forall>mutations summary s'. applyMutationBatch mutations s = Inr (summary, s')
              \<longrightarrow> \<not> classifyNodes s' \<and> \<not> attached s'
                \<and> (\<exists>s2. applyMutations mutations (s\<lparr>attached := True, classifyNodes := True\<rparr>)
                           = Inr s2 \<and> classifyNodes s2))
       \<and> (\<forall>mutations e s'. applyMutationBatch mutations s = Inl (e, s')
              \<longrightarrow> classifyNodes s' \<and> attached s'
                \<and> applyMutations mutations (s\<lparr>attached := True, classifyNodes := True\<rparr>)
                  = Inl (e, s'))
       \<and> \<not> classifyNodes newShadowDom"
proof -
  have 1: "\<forall>r s'. insertShadowNode n pidx nidx lay s = Inr (r, s') \<longrightarrow>
            noTagsAdded s s'
          \<and> (\<forall>place c. r = Some place \<longrightarrow> \<not> hasClass (docKids s') (Some place) c)"
    using noTagsAdded_insertShadowNode[OF idle root] by blast
  have 2: "\<forall>r s'. moveShadowNode index pidx' nidx' s = Inr (r, s') \<longrightarrow> noTagsAdded s s'"
    using noTagsAdded_moveShadowNode[OF idle root] by blast
  have 3: "noTagsAdded s (updateShadowNode index' lay' s)"
    using noTagsAdded_updateShadowNode[OF idle] .
  have 4: "\<forall>s'. noTagsAdded s s' \<and> classesWithin {TopNewNodeClassName} (docKids s)
                \<and> kidPaths (docKids s) [1] = []
              \<longrightarrow> fst (getMutationSummary s')
                  = \<lparr>newNodes = [], movedNodes = [], updatedNodes = [], removedNodes = []\<rparr>"
    by (auto simp: noTagsAdded_def intro!: summary_empty)
  have 5: "\<forall>t place t'. classifyNodes t
              \<and> (lid n = document_id \<longrightarrow> get_at (docKids t) [0] \<noteq> None)
              \<and> insertShadowNode n pidx nidx lay t = Inr (Some place, t')
              \<longrightarrow> hasClass (docKids t') (Some place) NewNodeClassName"
    using insertShadowNode_tags_new by blast
  have 6: "\<forall>t place t'. classifyNodes t
              \<and> moveShadowNode index pidx' nidx' t = Inr (Some place, t')
              \<longrightarrow> hasClass (docKids t') (Some place) MovedNodeClassName"
    using moveShadowNode_tags_moved by blast
  have 7: "\<forall>t a. classifyNodes t \<and> getShadowNode t index' = Some a
              \<longrightarrow> hasClass (docKids (updateShadowNode index' lay' t)) (Some a)
                    UpdatedNodeClassName"
    using updateShadowNode_tags_updated by blast
  have 8: "\<forall>mutations s1 s2. applyMutations mutations s1 = Inr s2
              \<longrightarrow> classifyNodes s2 = classifyNodes s1"
    using flags_applyMutations by blast
  have 9: "\<forall>mutations s1 e s2. applyMutations mutations s1 = Inl (e, s2)
              \<longrightarrow> classifyNodes s2 = classifyNodes s1 \<and> attached s2 = attached s1"
    using thrown_applyMutations by blast
  have 10: "\<forall>mutations summary s'. applyMutationBatch mutations s = Inr (summary, s')
              \<longrightarrow> \<not> classifyNodes s' \<and> \<not> attached s'
                \<and> (\<exists>s2. applyMutations mutations (s\<lparr>attached := True, classifyNodes := True\<rparr>)
                           = Inr s2 \<and> classifyNodes s2)"
  proof (intro allI impI)
    fix mutations summary s'
    assume "applyMutationBatch mutations s = Inr (summary, s')"
    then obtain s2 where
      a: "applyMutations mutations (s\<lparr>attached := True, classifyNodes := True\<rparr>) = Inr s2"
      and s': "s' = (snd (getMutationSummary (s2\<lparr>attached := False\<rparr>)))
            \<lparr>docKids := clearRemovedNodes
                          (finalLoop False
                             (docKids (snd (getMutationSummary (s2\<lparr>attached := False\<rparr>))))),
             classifyNodes := False\<rparr>"
      by (rule applyMutationBatch_unfold)
    from flags_applyMutations[OF a] have "classifyNodes s2" by simp
    with a s' show "\<not> classifyNodes s' \<and> \<not> attached s'
                \<and> (\<exists>s2. applyMutations mutations (s\<lparr>attached := True, classifyNodes := True\<rparr>)
                           = Inr s2 \<and> classifyNodes s2)"
      by (simp add: summary_frame)
  qed
  have 11: "\<forall>mutations e s'. applyMutationBatch mutations s = Inl (e, s')
              \<longrightarrow> classifyNodes s' \<and> attached s'
                \<and> applyMutations mutations (s\<lparr>attached := True, classifyNodes := True\<rparr>)
                  = Inl (e, s')"
  proof (intro allI impI)
    fix mutations e s'
    assume b: "applyMutationBatch mutations s = Inl (e, s')"
    then have "applyMutations mutations (s\<lparr>attached := True, classifyNodes := True\<rparr>)
               = Inl (e, s')"
      by (simp add: applyMutationBatch_def Let_def case_prod_beta split: sum.splits)
    with thrown_applyMutationBatch[OF b]
    show "classifyNodes s' \<and> attached s'
          \<and> applyMutations mutations (s\<lparr>attached := True, classifyNodes := True\<rparr>)
            = Inl (e, s')"
      by simp
  qed
  have 12: "\<not> classifyNodes newShadowDom"
    by (simp add: newShadowDom_def)
  show ?thesis
    apply (intro conjI)
               apply (rule 1)
              apply (rule 2)
             apply (rule 3)
            apply (rule 4)
           apply (rule 5)
          apply (rule 6)
         apply (rule 7)
        apply (rule 8)
       apply (rule 9)
      apply (rule 10)
     apply (rule 11)
    apply (rule 12)
    done
qed

theorem tags_only_while_classifying_witness:
  "\<not> classifyNodes syncState \<and> \<not> attached syncState
   \<and> map_option ident (props_at (docKids syncState) [0]) = Some None
   \<and> fst (projr (insertShadowNode liveT (Some 1) None None syncState)) = Some [0, 0, 0, 1]
   \<and> \<not> hasClass (docKids (snd (projr (insertShadowNode liveT (Some 1) None None syncState))))
          (Some [0, 0, 0, 1]) NewNodeClassName
   \<and> fst (getMutationSummary (snd (projr (insertShadowNode liveT (Some 1) None None syncState))))
       = \<lparr>newNodes = [], movedNodes = [], updatedNodes = [], removedNodes = []\<rparr>
   \<and> fst (getMutationSummary (snd (projr (moveShadowNode (Some 2) (Some 0) (Some 1) syncState))))
       = \<lparr>newNodes = [], movedNodes = [], updatedNodes = [], removedNodes = []\<rparr>
   \<and> fst (getMutationSummary (updateShadowNode (Some 2) None syncState))
       = \<lparr>newNodes = [], movedNodes = [], updatedNodes = [], removedNodes = []\<rparr>
   \<and> \<not> classifyNodes (snd (projr (applyMutationBatch
          [childListRecord (LNode 1 [liveK, liveT]) [liveT] [] (Some liveK) None] syncState)))
   \<and> classifyNodes (snd (projl (applyMutationBatch abortedBatch syncState)))
   \<and> attached (snd (projl (applyMutationBatch abortedBatch syncState)))
   \<and> hasClass
        (docKids (snd (projr (insertShadowNode liveT (Some 1) None None
           (syncState\<lparr>classifyNodes := True\<rparr>)))))
        (Some [0, 0, 0, 1]) NewNodeClassName"
proof -
  let ?i = "insertShadowNode liveT (Some 1) None None syncState"
  let ?m = "moveShadowNode (Some 2) (Some 0) (Some 1) syncState"
  let ?b = "applyMutationBatch
              [childListRecord (LNode 1 [liveK, liveT]) [liveT] [] (Some liveK) None] syncState"
  let ?x = "applyMutationBatch abortedBatch syncState"
  let ?t = "syncState\<lparr>classifyNodes := True\<rparr>"
  let ?j = "insertShadowNode liveT (Some 1) None None ?t"
  have idle: "\<not> classifyNodes syncState" "\<not> attached syncState"
    by code_simp+
  have root: "map_option ident (props_at (docKids syncState) [0]) = Some None"
    by code_simp
  have "\<not> isl ?i" by code_simp
  then have i: "?i = Inr (fst (projr ?i), snd (projr ?i))" by simp
  have "\<not> isl ?m" by code_simp
  then have m: "?m = Inr (fst (projr ?m), snd (projr ?m))" by simp
  have "\<not> isl ?b" by code_simp
  then have b: "?b = Inr (fst (projr ?b), snd (projr ?b))" by simp
  have "isl ?x" by code_simp
  then have x: "?x = Inl (fst (projl ?x), snd (projl ?x))" by simp
  have "\<not> isl ?j" by code_simp
  then have jr: "?j = Inr (projr ?j)" by simp
  have "fst (projr ?j) = Some [0, 0, 0, 1]" by code_simp
  then have jp: "projr ?j = (Some [0, 0, 0, 1], snd (projr ?j))"
    by (simp add: prod_eq_iff)
  from jr jp have j: "?j = Inr (Some [0, 0, 0, 1], snd (projr ?j))"
    by metis
  have tc: "classifyNodes ?t" by simp
  have tn: "lid liveT = document_id \<longrightarrow> get_at (docKids ?t) [0] \<noteq> None" by code_simp
  have place: "fst (projr ?i) = Some [0, 0, 0, 1]" by code_simp
  have w: "classesWithin {TopNewNodeClassName} (docKids syncState)"
    by (simp add: classesWithin_def forest_all_def syncState_def mirrorNode_def container_def)
  have h: "kidPaths (docKids syncState) [1] = []" by code_simp
  note t = tags_only_while_classifying[OF idle root, where n = liveT and pidx = "Some 1"
      and nidx = None and lay = None and index = "Some 2" and pidx' = "Some 0"
      and nidx' = "Some 1" and index' = "Some 2" and lay' = None]
  note t1 = t[THEN conjunct1] and t2 = t[THEN conjunct2, THEN conjunct1] and t3 = t[THEN conjunct2, THEN conjunct2, THEN conjunct1] and t4 = t[THEN conjunct2, THEN conjunct2, THEN conjunct2, THEN conjunct1] and t5 = t[THEN conjunct2, THEN conjunct2, THEN conjunct2, THEN conjunct2, THEN conjunct1] and t10 = t[THEN conjunct2, THEN conjunct2, THEN conjunct2, THEN conjunct2, THEN conjunct2, THEN conjunct2, THEN conjunct2, THEN conjunct2, THEN conjunct2, THEN conjunct1]
    and t11 = t[THEN conjunct2, THEN conjunct2, THEN conjunct2, THEN conjunct2, THEN conjunct2, THEN conjunct2, THEN conjunct2, THEN conjunct2, THEN conjunct2, THEN conjunct2, THEN conjunct1]
  from t1 i have 1: "noTagsAdded syncState (snd (projr ?i))"
    by blast
  from t1 i have 2: "\<forall>place c. fst (projr ?i) = Some place
                \<longrightarrow> \<not> hasClass (docKids (snd (projr ?i))) (Some place) c"
    by blast
  from t2 m have 3: "noTagsAdded syncState (snd (projr ?m))" by blast
  note 4 = t3
  from t4 have 5: "\<And>s'. noTagsAdded syncState s' \<Longrightarrow>
       classesWithin {TopNewNodeClassName} (docKids syncState) \<Longrightarrow>
       kidPaths (docKids syncState) [1] = [] \<Longrightarrow>
       fst (getMutationSummary s')
         = \<lparr>newNodes = [], movedNodes = [], updatedNodes = [], removedNodes = []\<rparr>"
    by blast
  from t10 b have 6: "\<not> classifyNodes (snd (projr ?b))" by blast
  from 2 place have 7: "\<not> hasClass (docKids (snd (projr ?i))) (Some [0, 0, 0, 1]) NewNodeClassName"
    by blast
  from t11 x have 8: "classifyNodes (snd (projl ?x)) \<and> attached (snd (projl ?x))" by blast
  from t5 tc tn j have 9: "hasClass (docKids (snd (projr ?j))) (Some [0, 0, 0, 1]) NewNodeClassName"
    by blast
  from idle root place 7 5[OF 1 w h] 5[OF 3 w h] 5[OF 4 w h] 6 8 9 show ?thesis
    by simp
qed

text \<open>
  The claim as stated fails: the batch of the script above is left by \<open>NotFoundError\<close>;
  the flag stays on; an \<open>insertShadowNode\<close> called afterwards, outside any batch, tags
  its node new, and the next batch (here one without records) reports that node in its
  summary, after the node the aborted batch had inserted.
\<close>

theorem tags_attached_after_aborted_batch:
  "map_sum fst (\<lambda>x. ()) (applyMutationBatch abortedBatch syncState) = Inl NotFoundError
   \<and> classifyNodes (snd (projl (applyMutationBatch abortedBatch syncState)))
   \<and> attached (snd (projl (applyMutationBatch abortedBatch syncState)))
   \<and> map_sum fst (\<lambda>(r, s). (r, hasClass (docKids s) r NewNodeClassName))
        (insertShadowNode (LNode 5 []) (Some 1) None None
           (snd (projl (applyMutationBatch abortedBatch syncState))))
     = Inr (Some [0, 0, 0, 1], True)
   \<and> map_sum fst (\<lambda>(summary, s). map (ident_at (docKids s)) (newNodes summary))
        (applyMutationBatch []
           (snd (projr (insertShadowNode (LNode 5 []) (Some 1) None None
              (snd (projl (applyMutationBatch abortedBatch syncState)))))))
     = Inr [Some 3, Some 5]"
  by code_simp

end
